theory Spec2Isabelle
  imports Main "HOL-Library.Word"
begin

unbundle bit_operations_syntax

section \<open>Python values shared by the scraper and the analyzer\<close>

text \<open>
  Strings are modelled by their UTF-8 bytes (\<^typ>\<open>string\<close> is a list of 8-bit
  characters), so \<^verbatim>\<open>str.encode()\<close> is the identity and substring search on bytes
  agrees with substring search on code points.
\<close>

subsection \<open>datetime and timedelta\<close>

text \<open>
  Every \<^verbatim>\<open>datetime\<close> of the two scripts is built with \<^verbatim>\<open>tzinfo=timezone.utc\<close>.
  A datetime is modelled by the number of microseconds between 0001-01-01T00:00:00 (the
  first instant Python can represent) and itself, next to its \<^verbatim>\<open>tzinfo\<close>; a
  \<^verbatim>\<open>timedelta\<close> is a number of microseconds. Comparison and subtraction of aware
  datetimes of one timezone are then comparison and subtraction of integers. The
  calendar fields are computed from the day number the way CPython's
  \<^verbatim>\<open>datetime.py\<close> does (\<^verbatim>\<open>_ymd2ord\<close>, \<^verbatim>\<open>_ord2ymd\<close>).
\<close>

datatype tzinfo = UTC

record datetime =
  micros :: int
  tzinfo :: "tzinfo option"

type_synonym timedelta = int

definition timedelta_hours :: "int \<Rightarrow> timedelta" where
  "timedelta_hours h = h * 3600000000"

definition timedelta_seconds :: "int \<Rightarrow> timedelta" where
  "timedelta_seconds s = s * 1000000"

definition dt_lt :: "datetime \<Rightarrow> datetime \<Rightarrow> bool" where
  "dt_lt a b = (micros a < micros b)"

definition dt_sub :: "datetime \<Rightarrow> timedelta \<Rightarrow> datetime" where
  "dt_sub d td = d\<lparr>micros := micros d - td\<rparr>"

definition is_leap :: "int \<Rightarrow> bool" where
  "is_leap y = (y mod 4 = 0 \<and> (y mod 100 \<noteq> 0 \<or> y mod 400 = 0))"

definition days_before_year :: "int \<Rightarrow> int" where
  "days_before_year year = (let y = year - 1 in y * 365 + y div 4 - y div 100 + y div 400)"

definition DAYS_IN_MONTH :: "int list" where
  "DAYS_IN_MONTH = [31, 28, 31, 30, 31, 30, 31, 31, 30, 31, 30, 31]"

definition DAYS_BEFORE_MONTH :: "int list" where
  "DAYS_BEFORE_MONTH = [0, 31, 59, 90, 120, 151, 181, 212, 243, 273, 304, 334]"

definition days_before_month :: "int \<Rightarrow> int \<Rightarrow> int" where
  "days_before_month year month =
     DAYS_BEFORE_MONTH ! nat (month - 1) + (if month > 2 \<and> is_leap year then 1 else 0)"

definition ymd2ord :: "int \<Rightarrow> int \<Rightarrow> int \<Rightarrow> int" where
  "ymd2ord year month day = days_before_year year + days_before_month year month + day"

definition ord2ymd :: "int \<Rightarrow> int \<times> int \<times> int" where
  "ord2ymd ordinal =
     (let n = ordinal - 1;
          n400 = n div 146097; n = n mod 146097;
          n100 = n div 36524; n = n mod 36524;
          n4 = n div 1461; n = n mod 1461;
          n1 = n div 365; n = n mod 365;
          year = n400 * 400 + 1 + n100 * 100 + n4 * 4 + n1
      in if n1 = 4 \<or> n100 = 4 then (year - 1, 12, 31)
         else
           let leapyear = (n1 = 3 \<and> (n4 \<noteq> 24 \<or> n100 = 3));
               month = (n + 50) div 32;
               preceding = DAYS_BEFORE_MONTH ! nat (month - 1)
                             + (if month > 2 \<and> leapyear then 1 else 0)
           in if preceding > n
              then let month' = month - 1;
                       preceding' = preceding
                          - (DAYS_IN_MONTH ! nat (month' - 1)
                               + (if month' = 2 \<and> leapyear then 1 else 0))
                   in (year, month', n - preceding' + 1)
              else (year, month, n - preceding + 1))"

definition dt_year :: "datetime \<Rightarrow> int" where
  "dt_year d = fst (ord2ymd (micros d div 86400000000 + 1))"

definition dt_month :: "datetime \<Rightarrow> int" where
  "dt_month d = fst (snd (ord2ymd (micros d div 86400000000 + 1)))"

definition dt_day :: "datetime \<Rightarrow> int" where
  "dt_day d = snd (snd (ord2ymd (micros d div 86400000000 + 1)))"

definition dt_hour :: "datetime \<Rightarrow> int" where
  "dt_hour d = micros d mod 86400000000 div 3600000000"

definition dt_minute :: "datetime \<Rightarrow> int" where
  "dt_minute d = micros d mod 3600000000 div 60000000"

definition dt_second :: "datetime \<Rightarrow> int" where
  "dt_second d = micros d mod 60000000 div 1000000"

definition dt_microsecond :: "datetime \<Rightarrow> int" where
  "dt_microsecond d = micros d mod 1000000"

text \<open>
  \<^verbatim>\<open>"%0wd" % v\<close> for \<open>0 \<le> v < 10 ^ w\<close>, the only values the date fields (years
  1 to 9999) take.
\<close>

definition zero_padded :: "nat \<Rightarrow> int \<Rightarrow> string" where
  "zero_padded w v = map (\<lambda>i. ''0123456789'' ! nat (v div 10 ^ (w - 1 - i) mod 10)) [0..<w]"

text \<open>
  \<^verbatim>\<open>datetime.isoformat(sep)\<close>: the microseconds are printed only when they are not
  zero, the offset only for an aware datetime. \<^verbatim>\<open>isoformat()\<close> is \<open>isoformat CHR ''T''\<close>.
\<close>

definition isoformat :: "char \<Rightarrow> datetime \<Rightarrow> string" where
  "isoformat sep d =
     zero_padded 4 (dt_year d) @ ''-'' @ zero_padded 2 (dt_month d) @ ''-''
       @ zero_padded 2 (dt_day d) @ [sep]
       @ zero_padded 2 (dt_hour d) @ '':'' @ zero_padded 2 (dt_minute d) @ '':''
       @ zero_padded 2 (dt_second d)
       @ (if dt_microsecond d = 0 then [] else ''.'' @ zero_padded 6 (dt_microsecond d))
       @ (case tzinfo d of None \<Rightarrow> [] | Some UTC \<Rightarrow> ''+00:00'')"

text \<open>\<^verbatim>\<open>strftime("%Y-%m-%d %H:%M")\<close>.\<close>

definition strftime_ymd_hm :: "datetime \<Rightarrow> string" where
  "strftime_ymd_hm d =
     zero_padded 4 (dt_year d) @ ''-'' @ zero_padded 2 (dt_month d) @ ''-''
       @ zero_padded 2 (dt_day d) @ '' ''
       @ zero_padded 2 (dt_hour d) @ '':'' @ zero_padded 2 (dt_minute d)"

text \<open>
  The first six fields of a \<^verbatim>\<open>time.struct_time\<close>, which is what feedparser puts in
  \<^verbatim>\<open>published_parsed\<close> and \<^verbatim>\<open>updated_parsed\<close>: a normalised calendar time in UTC.
\<close>

record struct_time =
  tm_year :: int
  tm_mon :: int
  tm_mday :: int
  tm_hour :: int
  tm_min :: int
  tm_sec :: int

text \<open>\<^verbatim>\<open>datetime(*ts[:6], tzinfo=timezone.utc)\<close>.\<close>

definition datetime_utc :: "struct_time \<Rightarrow> datetime" where
  "datetime_utc ts =
     \<lparr>micros = ((((ymd2ord (tm_year ts) (tm_mon ts) (tm_mday ts) - 1) * 24 + tm_hour ts) * 60
                    + tm_min ts) * 60 + tm_sec ts) * 1000000,
      tzinfo = Some UTC\<rparr>"

text \<open>
  \<^verbatim>\<open>datetime.now(tz=timezone.utc)\<close>, given what the system clock reads at the call (in
  microseconds since 0001-01-01T00:00:00Z).
\<close>

definition datetime_now_utc :: "int \<Rightarrow> datetime" where
  "datetime_now_utc clock = \<lparr>micros = clock, tzinfo = Some UTC\<rparr>"

subsection \<open>hashlib.sha256\<close>

text \<open>SHA-256 as FIPS 180-4 defines it, on a list of bytes; the digest in lower-case hex.\<close>

definition sha256_K :: "32 word list" where
  "sha256_K =
    [1116352408, 1899447441, 3049323471, 3921009573, 961987163, 1508970993,
     2453635748, 2870763221, 3624381080, 310598401, 607225278, 1426881987,
     1925078388, 2162078206, 2614888103, 3248222580, 3835390401, 4022224774,
     264347078, 604807628, 770255983, 1249150122, 1555081692, 1996064986,
     2554220882, 2821834349, 2952996808, 3210313671, 3336571891, 3584528711,
     113926993, 338241895, 666307205, 773529912, 1294757372, 1396182291,
     1695183700, 1986661051, 2177026350, 2456956037, 2730485921, 2820302411,
     3259730800, 3345764771, 3516065817, 3600352804, 4094571909, 275423344,
     430227734, 506948616, 659060556, 883997877, 958139571, 1322822218,
     1537002063, 1747873779, 1955562222, 2024104815, 2227730452, 2361852424,
     2428436474, 2756734187, 3204031479, 3329325298]"

type_synonym sha256_state =
  "32 word \<times> 32 word \<times> 32 word \<times> 32 word \<times> 32 word \<times> 32 word \<times> 32 word \<times> 32 word"

definition sha256_H0 :: sha256_state where
  "sha256_H0 =
    (1779033703, 3144134277, 1013904242, 2773480762,
     1359893119, 2600822924, 528734635, 1541459225)"

definition sha256_pad :: "8 word list \<Rightarrow> 8 word list" where
  "sha256_pad bs =
     (let l = length bs; bits = (of_nat (8 * l) :: 64 word)
      in bs @ [128] @ replicate ((119 - l mod 64) mod 64) 0
            @ map (\<lambda>i. ucast (drop_bit (8 * (7 - i)) bits)) [0..<8])"

definition sha256_blocks :: "8 word list \<Rightarrow> 32 word list list" where
  "sha256_blocks bs =
     map (\<lambda>j. map (\<lambda>i. push_bit 24 (ucast (bs ! (64 * j + 4 * i)))
                         OR push_bit 16 (ucast (bs ! (64 * j + 4 * i + 1)))
                         OR push_bit 8 (ucast (bs ! (64 * j + 4 * i + 2)))
                         OR ucast (bs ! (64 * j + 4 * i + 3)))
                  [0..<16])
         [0..<length bs div 64]"

fun sha256_schedule :: "nat \<Rightarrow> 32 word list \<Rightarrow> 32 word list" where
  "sha256_schedule 0 w = w"
| "sha256_schedule (Suc n) w =
     (let t = length w;
          x = w ! (t - 15);
          y = w ! (t - 2);
          s0 = word_rotr 7 x XOR word_rotr 18 x XOR drop_bit 3 x;
          s1 = word_rotr 17 y XOR word_rotr 19 y XOR drop_bit 10 y
      in sha256_schedule n (w @ [s1 + w ! (t - 7) + s0 + w ! (t - 16)]))"

definition sha256_round :: "sha256_state \<Rightarrow> 32 word \<times> 32 word \<Rightarrow> sha256_state" where
  "sha256_round st kw =
     (case st of (a, b, c, d, e, f, g, h) \<Rightarrow>
      let t1 = h + (word_rotr 6 e XOR word_rotr 11 e XOR word_rotr 25 e)
                 + ((e AND f) XOR (NOT e AND g)) + fst kw + snd kw;
          t2 = (word_rotr 2 a XOR word_rotr 13 a XOR word_rotr 22 a)
                 + ((a AND b) XOR (a AND c) XOR (b AND c))
      in (t1 + t2, a, b, c, d + t1, e, f, g))"

definition sha256_compress :: "sha256_state \<Rightarrow> 32 word list \<Rightarrow> sha256_state" where
  "sha256_compress st block =
     (case st of (a, b, c, d, e, f, g, h) \<Rightarrow>
      case foldl sha256_round st (zip sha256_K (sha256_schedule 48 block)) of
        (a', b', c', d', e', f', g', h') \<Rightarrow>
          (a + a', b + b', c + c', d + d', e + e', f + f', g + g', h + h'))"

definition hexdigit :: "4 word \<Rightarrow> char" where
  "hexdigit n = ''0123456789abcdef'' ! unat n"

definition sha256_hexdigest :: "8 word list \<Rightarrow> string" where
  "sha256_hexdigest bs =
     (case foldl sha256_compress sha256_H0 (sha256_blocks (sha256_pad bs)) of
        (a, b, c, d, e, f, g, h) \<Rightarrow>
          concat (map (\<lambda>w. map (\<lambda>i. hexdigit (ucast (drop_bit (4 * (7 - i)) w))) [0..<8])
                      [a, b, c, d, e, f, g, h]))"

section \<open>The scraper: cnn\_news\_scraper\_v2.py\<close>

definition MAX_AGE_HOURS :: int where
  "MAX_AGE_HOURS = 24"

definition FEEDS :: "string list" where
  "FEEDS =
    [''http://rss.cnn.com/rss/cnn_topstories.rss'',
     ''http://rss.cnn.com/rss/cnn_world.rss'',
     ''http://rss.cnn.com/rss/cnn_us.rss'',
     ''http://rss.cnn.com/rss/cnn_allpolitics.rss'',
     ''http://rss.cnn.com/rss/cnn_tech.rss'',
     ''http://rss.cnn.com/rss/cnn_health.rss'',
     ''http://rss.cnn.com/rss/cnn_showbiz.rss'']"

definition article_id :: "string \<Rightarrow> string" where
  "article_id link = sha256_hexdigest (map of_char link)"

text \<open>
  A feed entry as feedparser delivers it: \<^verbatim>\<open>entry.link\<close> is read as an attribute and
  is there for every item; the other keys may be missing (or hold \<^verbatim>\<open>None\<close>), which is
  \<^term>\<open>None\<close> here.
\<close>

record entry =
  entry_link :: string
  entry_title :: "string option"
  entry_summary :: "string option"
  published_parsed :: "struct_time option"
  updated_parsed :: "struct_time option"

text \<open>\<^verbatim>\<open>entry.get(key, default)\<close>, given what the key holds.\<close>

definition entry_get :: "'a option \<Rightarrow> 'a \<Rightarrow> 'a" where
  "entry_get v dflt = (case v of None \<Rightarrow> dflt | Some x \<Rightarrow> x)"

text \<open>
  \<^verbatim>\<open>parse_datetime(entry)\<close>. The first argument is what the system clock reads if the
  function gets as far as calling \<^verbatim>\<open>datetime.now\<close>.
\<close>

definition parse_datetime :: "int \<Rightarrow> entry \<Rightarrow> datetime" where
  "parse_datetime clock entry =
     (case published_parsed entry of
        Some ts \<Rightarrow> datetime_utc ts
      | None \<Rightarrow>
          (case updated_parsed entry of
             Some ts \<Rightarrow> datetime_utc ts
           | None \<Rightarrow> datetime_now_utc clock))"

subsection \<open>The table \<^verbatim>\<open>articles\<close>\<close>

text \<open>
  A row of the table, columns in the order of \<^verbatim>\<open>CREATE TABLE\<close>. The analyzer guards
  its reads of \<^verbatim>\<open>title\<close> and \<^verbatim>\<open>summary\<close> against NULL, so these two columns can
  hold NULL (\<^term>\<open>None\<close>). The table is the list of its rows in rowid order, which is
  the order of insertion and the order in which a full scan returns them.
\<close>

record row =
  row_id :: string
  row_title :: "string option"
  row_link :: string
  row_published :: string
  row_summary :: "string option"
  row_feed :: string

type_synonym database = "row list"

text \<open>
  The exceptions: \<^verbatim>\<open>sqlite3.OperationalError\<close> and \<^verbatim>\<open>sqlite3.IntegrityError\<close>, and
  the exception of a fetch that \<^verbatim>\<open>feedparser.parse\<close> lets through.
\<close>

datatype error = OperationalError | IntegrityError | FetchError

text \<open>\<^verbatim>\<open>SELECT 1 FROM articles WHERE id = ?\<close> followed by \<^verbatim>\<open>fetchone()\<close>.\<close>

definition select_by_id :: "database \<Rightarrow> string \<Rightarrow> row option" where
  "select_by_id db aid = (case filter (\<lambda>r. row_id r = aid) db of [] \<Rightarrow> None | r # _ \<Rightarrow> Some r)"

text \<open>\<^verbatim>\<open>INSERT INTO articles\<close>: \<^verbatim>\<open>id\<close> is the primary key.\<close>

definition insert_row :: "database \<Rightarrow> row \<Rightarrow> error + database" where
  "insert_row db r = (if row_id r \<in> set (map row_id db) then Inl IntegrityError else Inr (db @ [r]))"

text \<open>
  What the world outside the process does during one call of \<^verbatim>\<open>store_entry\<close>: what the
  clock reads at the two places that ask for the time, and whether each of the three
  statements sent to SQLite fails with an I/O error.
\<close>

record ambient =
  clock_parse :: int
  clock_check :: int
  select_fails :: bool
  insert_fails :: bool
  commit_fails :: bool

text \<open>
  \<^verbatim>\<open>store_entry(db, feed_url, entry)\<close>: the value returned or the exception raised, and
  the table as the connection sees it afterwards. A row inserted before a failing
  \<^verbatim>\<open>commit\<close> stays visible to this connection.
\<close>

definition store_entry :: "ambient \<Rightarrow> database \<Rightarrow> string \<Rightarrow> entry \<Rightarrow> (error + bool) \<times> database" where
  "store_entry amb db feed_url entry =
     (let aid = article_id (entry_link entry)
      in if select_fails amb then (Inl OperationalError, db)
         else if select_by_id db aid \<noteq> None then (Inr False, db)
         else
           let published_dt = parse_datetime (clock_parse amb) entry
           in if dt_lt published_dt
                   (dt_sub (datetime_now_utc (clock_check amb)) (timedelta_hours MAX_AGE_HOURS))
              then (Inr False, db)
              else if insert_fails amb then (Inl OperationalError, db)
              else
                (case insert_row db
                        \<lparr>row_id = aid,
                         row_title = Some (entry_get (entry_title entry) ''''),
                         row_link = entry_link entry,
                         row_published = isoformat CHR ''T'' published_dt,
                         row_summary = Some (entry_get (entry_summary entry) ''''),
                         row_feed = feed_url\<rparr> of
                   Inl err \<Rightarrow> (Inl err, db)
                 | Inr db' \<Rightarrow>
                     if commit_fails amb then (Inl OperationalError, db') else (Inr True, db')))"

text \<open>
  The list comprehension of \<^verbatim>\<open>fetch_feed\<close>: the entries are stored one after the
  other, the \<open>i\<close>-th call in the surroundings \<open>amb i\<close>; an exception ends the
  comprehension.
\<close>

fun store_entries ::
  "(nat \<Rightarrow> ambient) \<Rightarrow> nat \<Rightarrow> database \<Rightarrow> string \<Rightarrow> entry list \<Rightarrow> (error + bool list) \<times> database" where
  "store_entries amb i db feed_url [] = (Inr [], db)"
| "store_entries amb i db feed_url (e # es) =
     (case store_entry (amb i) db feed_url e of
        (Inl err, db') \<Rightarrow> (Inl err, db')
      | (Inr b, db') \<Rightarrow>
          (case store_entries amb (Suc i) db' feed_url es of
             (Inl err, db'') \<Rightarrow> (Inl err, db'')
           | (Inr bs, db'') \<Rightarrow> (Inr (b # bs), db'')))"

subsection \<open>One cycle\<close>

text \<open>
  What the world does during one cycle: what \<^verbatim>\<open>feedparser.parse(url)\<close> does for each
  feed, the surroundings of the \<open>i\<close>-th \<^verbatim>\<open>store_entry\<close> call of each feed, and the
  order in which the event loop resumes the coroutines that \<^verbatim>\<open>asyncio.gather\<close> runs,
  each named by its position among the arguments of \<^verbatim>\<open>asyncio.gather\<close>.
  \<^verbatim>\<open>feedparser.parse\<close> returns a result with its entries, none of them when it reports
  a failed fetch in the result (\<^verbatim>\<open>bozo\<close>), or it raises the exception of the fetch
  (\<open>Inl\<close>); nothing in the script catches it.
\<close>

record cycle_env =
  feedparser_parse :: "string \<Rightarrow> error + entry list"
  ambient_of :: "string \<Rightarrow> nat \<Rightarrow> ambient"
  schedule :: "nat list"

text \<open>
  \<^verbatim>\<open>fetch_feed(db, feed_url)\<close> when nothing else runs between its statements: the sum
  of the values of the comprehension, or the exception.
\<close>

definition fetch_feed :: "cycle_env \<Rightarrow> database \<Rightarrow> string \<Rightarrow> (error + nat) \<times> database" where
  "fetch_feed env db feed_url =
     (case feedparser_parse env feed_url of
        Inl err \<Rightarrow> (Inl err, db)
      | Inr parsed \<Rightarrow>
          (case store_entries (ambient_of env feed_url) 0 db feed_url parsed of
             (Inl err, db') \<Rightarrow> (Inl err, db')
           | (Inr bs, db') \<Rightarrow> (Inr (length (filter (\<lambda>b. b) bs)), db')))"

text \<open>
  Under \<^verbatim>\<open>asyncio.gather\<close> the coroutines of \<^verbatim>\<open>fetch_feed\<close> share the connection, and
  each of them gives way to the others at every \<^verbatim>\<open>await\<close> of \<^verbatim>\<open>store_entry\<close>: at the
  \<^verbatim>\<open>SELECT\<close>, at \<^verbatim>\<open>fetchone\<close> (which hands over what the \<^verbatim>\<open>SELECT\<close> found), at
  the \<^verbatim>\<open>INSERT\<close> of the row it has built, and at \<^verbatim>\<open>commit\<close>.
\<close>

datatype await = SELECT | FETCHONE bool | INSERT row | COMMIT

text \<open>
  A coroutine of \<^verbatim>\<open>fetch_feed\<close> between two resumptions: created and not yet run;
  suspended at an \<^verbatim>\<open>await\<close> of the \<^verbatim>\<open>store_entry\<close> call number \<open>i\<close>, with the values
  of the calls before it, the entry in hand and the entries still to come; or finished,
  with the value returned or the exception raised.
\<close>

datatype coroutine =
    Created
  | Suspended await nat "bool list" entry "entry list"
  | Returned nat
  | Raised error

text \<open>
  The comprehension of \<^verbatim>\<open>fetch_feed\<close> goes on to its next entry, where the coroutine
  is suspended at the \<^verbatim>\<open>SELECT\<close>, or it is over and \<^verbatim>\<open>fetch_feed\<close> returns the sum.
\<close>

definition next_entry :: "nat \<Rightarrow> bool list \<Rightarrow> entry list \<Rightarrow> coroutine" where
  "next_entry i bs es =
     (case es of
        [] \<Rightarrow> Returned (length (filter (\<lambda>b. b) bs))
      | e # es' \<Rightarrow> Suspended SELECT i bs e es')"

text \<open>
  One resumption of a coroutine of \<^verbatim>\<open>fetch_feed(db, feed_url)\<close>: the statement it
  awaits is executed on the table as it is now, and the coroutine runs up to its next
  \<^verbatim>\<open>await\<close> or to its end. The first resumption of a coroutine calls
  \<^verbatim>\<open>feedparser.parse\<close>, which does not give way.
\<close>

definition resume :: "cycle_env \<Rightarrow> string \<Rightarrow> database \<Rightarrow> coroutine \<Rightarrow> coroutine \<times> database" where
  "resume env feed_url db co =
     (case co of
        Created \<Rightarrow>
          (case feedparser_parse env feed_url of
             Inl err \<Rightarrow> (Raised err, db)
           | Inr parsed \<Rightarrow> (next_entry 0 [] parsed, db))
      | Suspended a i bs entry es \<Rightarrow>
          (let amb = ambient_of env feed_url i;
               aid = article_id (entry_link entry)
           in case a of
                SELECT \<Rightarrow>
                  if select_fails amb then (Raised OperationalError, db)
                  else (Suspended (FETCHONE (select_by_id db aid \<noteq> None)) i bs entry es, db)
              | FETCHONE found \<Rightarrow>
                  if found then (next_entry (Suc i) (bs @ [False]) es, db)
                  else
                    let published_dt = parse_datetime (clock_parse amb) entry
                    in if dt_lt published_dt
                            (dt_sub (datetime_now_utc (clock_check amb)) (timedelta_hours MAX_AGE_HOURS))
                       then (next_entry (Suc i) (bs @ [False]) es, db)
                       else (Suspended
                               (INSERT \<lparr>row_id = aid,
                                        row_title = Some (entry_get (entry_title entry) ''''),
                                        row_link = entry_link entry,
                                        row_published = isoformat CHR ''T'' published_dt,
                                        row_summary = Some (entry_get (entry_summary entry) ''''),
                                        row_feed = feed_url\<rparr>) i bs entry es, db)
              | INSERT r \<Rightarrow>
                  if insert_fails amb then (Raised OperationalError, db)
                  else
                    (case insert_row db r of
                       Inl err \<Rightarrow> (Raised err, db)
                     | Inr db' \<Rightarrow> (Suspended COMMIT i bs entry es, db'))
              | COMMIT \<Rightarrow>
                  if commit_fails amb then (Raised OperationalError, db)
                  else (next_entry (Suc i) (bs @ [True]) es, db))
      | Returned k \<Rightarrow> (Returned k, db)
      | Raised err \<Rightarrow> (Raised err, db))"

text \<open>The number of resumptions a coroutine can still need.\<close>

definition resumptions_left :: "cycle_env \<Rightarrow> string \<Rightarrow> coroutine \<Rightarrow> nat" where
  "resumptions_left env feed_url co =
     (case co of
        Created \<Rightarrow>
          (case feedparser_parse env feed_url of Inl err \<Rightarrow> 1 | Inr parsed \<Rightarrow> 1 + 4 * length parsed)
      | Suspended a i bs entry es \<Rightarrow>
          (case a of SELECT \<Rightarrow> 4 | FETCHONE found \<Rightarrow> 3 | INSERT r \<Rightarrow> 2 | COMMIT \<Rightarrow> 1)
            + 4 * length es
      | Returned k \<Rightarrow> 0
      | Raised err \<Rightarrow> 0)"

text \<open>
  A coroutine resumed again and again, nothing else running in between, until it ends.
\<close>

function run_to_end :: "cycle_env \<Rightarrow> string \<Rightarrow> database \<Rightarrow> coroutine \<Rightarrow> (error + nat) \<times> database" where
  "run_to_end env feed_url db (Returned k) = (Inr k, db)"
| "run_to_end env feed_url db (Raised err) = (Inl err, db)"
| "run_to_end env feed_url db Created =
     (case resume env feed_url db Created of (co, db') \<Rightarrow> run_to_end env feed_url db' co)"
| "run_to_end env feed_url db (Suspended a i bs entry es) =
     (case resume env feed_url db (Suspended a i bs entry es) of
        (co, db') \<Rightarrow> run_to_end env feed_url db' co)"
  by pat_completeness auto
termination
proof (relation "measure (\<lambda>(env, feed_url, db, co). resumptions_left env feed_url co)")
  show "wf (measure (\<lambda>(env, feed_url, db, co). resumptions_left env feed_url co))"
    by simp
next
  fix env feed_url db x y
  assume "(x, y) = resume env feed_url db Created"
  then show "((env, feed_url, y, x), (env, feed_url, db, Created))
               \<in> measure (\<lambda>(env, feed_url, db, co). resumptions_left env feed_url co)"
    by (auto simp: resume_def resumptions_left_def next_entry_def split: sum.splits list.splits)
next
  fix env feed_url db a i bs entry es x y
  assume "(x, y) = resume env feed_url db (Suspended a i bs entry es)"
  then show "((env, feed_url, y, x), (env, feed_url, db, Suspended a i bs entry es))
               \<in> measure (\<lambda>(env, feed_url, db, co). resumptions_left env feed_url co)"
    by (auto simp: resume_def resumptions_left_def next_entry_def Let_def
        split: await.splits sum.splits list.splits if_splits)
qed

text \<open>
  The event loop follows the schedule: it resumes the coroutine whose number comes next
  (a coroutine that has ended is left alone), until a coroutine raises, which ends the
  wait of \<^verbatim>\<open>asyncio.gather\<close> with that exception, or the schedule is used up.
\<close>

fun follow ::
  "cycle_env \<Rightarrow> nat list \<Rightarrow> (string \<times> coroutine) list \<Rightarrow> database
     \<Rightarrow> (error + (string \<times> coroutine) list) \<times> database" where
  "follow env [] tasks db = (Inr tasks, db)"
| "follow env (k # sched) tasks db =
     (if k < length tasks
      then (case resume env (fst (tasks ! k)) db (snd (tasks ! k)) of
              (co, db') \<Rightarrow>
                (case co of
                   Raised err \<Rightarrow> (Inl err, db')
                 | _ \<Rightarrow> follow env sched (tasks[k := (fst (tasks ! k), co)]) db'))
      else follow env sched tasks db)"

text \<open>
  The coroutines that have not ended when the schedule is used up are run to their
  ends one after the other, in the order of the arguments of \<^verbatim>\<open>asyncio.gather\<close>.
\<close>

fun run_rest :: "cycle_env \<Rightarrow> (string \<times> coroutine) list \<Rightarrow> database \<Rightarrow> (error + nat list) \<times> database" where
  "run_rest env [] db = (Inr [], db)"
| "run_rest env ((feed_url, co) # tasks) db =
     (case run_to_end env feed_url db co of
        (Inl err, db') \<Rightarrow> (Inl err, db')
      | (Inr k, db') \<Rightarrow>
          (case run_rest env tasks db' of
             (Inl err, db'') \<Rightarrow> (Inl err, db'')
           | (Inr ks, db'') \<Rightarrow> (Inr (k # ks), db'')))"

text \<open>
  \<^verbatim>\<open>asyncio.gather(*(fetch_feed(db, url) for url in FEEDS))\<close>: one coroutine for each
  URL, resumed in the order of the cycle's schedule. The result is the list of the
  values returned, in the order of the URLs, or the first exception raised; the table is
  given as it is when the wait ends (what the statements already sent by the other
  coroutines do to it after an exception is left out).
\<close>

definition gather_fetch_feed :: "cycle_env \<Rightarrow> database \<Rightarrow> string list \<Rightarrow> (error + nat list) \<times> database" where
  "gather_fetch_feed env db urls =
     (case follow env (schedule env) (map (\<lambda>url. (url, Created)) urls) db of
        (Inl err, db') \<Rightarrow> (Inl err, db')
      | (Inr tasks, db') \<Rightarrow> run_rest env tasks db')"

text \<open>
  A coroutine that cannot return any more: its fetch raises, or a \<^verbatim>\<open>SELECT\<close> it has
  still to send fails.
\<close>

definition fails_ahead :: "cycle_env \<Rightarrow> string \<Rightarrow> coroutine \<Rightarrow> bool" where
  "fails_ahead env feed_url co =
     (case co of
        Created \<Rightarrow>
          (case feedparser_parse env feed_url of
             Inl err \<Rightarrow> True
           | Inr parsed \<Rightarrow> \<exists>j \<in> {0..<length parsed}. select_fails (ambient_of env feed_url j))
      | Suspended a i bs entry es \<Rightarrow>
          (a = SELECT \<and> select_fails (ambient_of env feed_url i)) \<or>
          (\<exists>j \<in> {Suc i..<Suc (i + length es)}. select_fails (ambient_of env feed_url j))
      | Returned k \<Rightarrow> False
      | Raised err \<Rightarrow> True)"

text \<open>
  The schedule of a cycle with coroutine number \<open>k\<close> taken out of it: the other
  coroutines are resumed in the same order, those after \<open>k\<close> under a number one less.
\<close>

definition without_task :: "nat \<Rightarrow> nat list \<Rightarrow> nat list" where
  "without_task k sched = map (\<lambda>j. if k < j then j - 1 else j) (filter (\<lambda>j. j \<noteq> k) sched)"

text \<open>
  \<^verbatim>\<open>init_db\<close>: \<^verbatim>\<open>CREATE TABLE IF NOT EXISTS\<close> on a database file that has the table
  (\<open>Some rows\<close>) or has not (\<open>None\<close>).
\<close>

definition init_db :: "database option \<Rightarrow> database" where
  "init_db file = (case file of None \<Rightarrow> [] | Some rows \<Rightarrow> rows)"

text \<open>
  The \<^verbatim>\<open>while True\<close> loop of \<^verbatim>\<open>poll_loop\<close>, cycle \<open>c\<close> in the surroundings \<open>env c\<close>.
  The loop has no exit, so it is observed for \<open>n\<close> cycles: the result is \<open>Inl err\<close> if
  an exception left the loop within them, and otherwise \<open>Inr\<close> of the
  \<^verbatim>\<open>new_articles\<close> counts logged so far, the loop still running.
\<close>

fun poll_cycles ::
  "(nat \<Rightarrow> cycle_env) \<Rightarrow> string list \<Rightarrow> nat \<Rightarrow> nat \<Rightarrow> database \<Rightarrow> (error + nat list) \<times> database" where
  "poll_cycles env feeds c 0 db = (Inr [], db)"
| "poll_cycles env feeds c (Suc n) db =
     (case gather_fetch_feed (env c) db feeds of
        (Inl err, db') \<Rightarrow> (Inl err, db')
      | (Inr added, db') \<Rightarrow>
          (case poll_cycles env feeds (Suc c) n db' of
             (Inl err, db'') \<Rightarrow> (Inl err, db'')
           | (Inr logged, db'') \<Rightarrow> (Inr (sum_list added # logged), db'')))"

definition poll_loop :: "(nat \<Rightarrow> cycle_env) \<Rightarrow> nat \<Rightarrow> database option \<Rightarrow> (error + nat list) \<times> database" where
  "poll_loop env n file = poll_cycles env FEEDS 0 n (init_db file)"

section \<open>The analyzer: news\_impact\_analyzer\_v3.py\<close>

definition LOOKBACK_HOURS :: int where
  "LOOKBACK_HOURS = 24"

definition MAX_ARTICLES_PER_TICKER :: nat where
  "MAX_ARTICLES_PER_TICKER = 8"

text \<open>
  The dictionary \<^verbatim>\<open>TICKERS\<close>, in the order of its keys. The hyphen of \<^verbatim>\<open>D-Wave\<close> is
  U+2011 in the source, the bytes E2 80 91.
\<close>

definition TICKERS :: "(string \<times> string list) list" where
  "TICKERS =
    [(''IBM'', [''IBM'', ''International Business Machines'']),
     (''MSFT'', [''Microsoft'', ''MS Corp'', ''MSFT'']),
     (''GOOGL'', [''Google'', ''Alphabet'', ''GOOG'']),
     (''NVDA'', [''NVIDIA'', ''Nvidia'']),
     (''IONQ'', [''IonQ'']),
     (''RGTI'', [''Rigetti'', ''Rigetti Computing'']),
     (''QBTS'', [''D'' @ [CHR 0xE2, CHR 0x80, CHR 0x91] @ ''Wave'', ''DWave'',
                 ''D'' @ [CHR 0xE2, CHR 0x80, CHR 0x91] @ ''Wave Quantum'']),
     (''BAESY'', [''BAE'', ''BAE Systems'']),
     (''RHM.DE'', [''Rheinmetall'']),
     (''LDO.MI'', [''Leonardo'']),
     (''HO.PA'', [''Thales'']),
     (''SAAB-B.ST'', [''Saab'']),
     (''AM.PA'', [''Dassault'', ''Dassault Aviation'']),
     (''AIR.PA'', [''Airbus'']),
     (''AMD'', [''AMD'', ''Advanced Micro Devices'']),
     (''META'', [''Meta'', ''Facebook'']),
     (''AMZN'', [''Amazon'', ''Amazon.com'']),
     (''PLTR'', [''Palantir'']),
     (''AVGO'', [''Broadcom'']),
     (''SNOW'', [''Snowflake'']),
     (''SMCI'', [''Super Micro'', ''Supermicro'']),
     (''INTC'', [''Intel'']),
     (''BABA'', [''Alibaba'']),
     (''BIDU'', [''Baidu'']),
     (''TCEHY'', [''Tencent'']),
     (''IFLYTEK'', [''iFlytek'', ''IFLYTEK'']),
     (''0020.HK'', [''SenseTime'', ''Sense Time'']),
     (''ASML'', [''ASML'']),
     (''SAP'', [''SAP'']),
     (''ARM'', [''Arm'', ''Arm Holdings'']),
     (''STM'', [''STMicro'', ''STMicroelectronics'']),
     (''DARK'', [''Darktrace'']),
     (''AAPL'', [''Apple'']),
     (''TSLA'', [''Tesla''])]"

subsection \<open>Reading the table\<close>

text \<open>
  SQLite compares two TEXT values by \<^verbatim>\<open>memcmp\<close> on their bytes, the shorter one first
  when it is a prefix of the other. The column \<^verbatim>\<open>published\<close> has NUMERIC affinity, and
  a timestamp is not a numeric literal, so the values stay TEXT.
\<close>

fun text_ge :: "string \<Rightarrow> string \<Rightarrow> bool" where
  "text_ge a [] = True"
| "text_ge [] (y # ys) = False"
| "text_ge (x # xs) (y # ys) =
     (if (of_char y :: nat) < of_char x then True
      else if (of_char x :: nat) < of_char y then False
      else text_ge xs ys)"

text \<open>\<^verbatim>\<open>value or ""\<close> on a column value.\<close>

definition or_empty :: "string option \<Rightarrow> string" where
  "or_empty v = (case v of None \<Rightarrow> [] | Some s \<Rightarrow> if s = [] then [] else s)"

text \<open>The dictionary built for each row.\<close>

record article =
  art_id :: string
  art_title :: string
  art_summary :: string
  art_published :: datetime

text \<open>
  \<^verbatim>\<open>fetch_recent_articles(conn, since)\<close>. The first argument stands for
  \<^verbatim>\<open>dateutil.parser.parse\<close> on the timestamps of the table.
\<close>

definition fetch_recent_articles :: "(string \<Rightarrow> datetime) \<Rightarrow> database \<Rightarrow> datetime \<Rightarrow> article list" where
  "fetch_recent_articles dt_parse conn since =
     map (\<lambda>r. \<lparr>art_id = row_id r,
                 art_title = or_empty (row_title r),
                 art_summary = or_empty (row_summary r),
                 art_published = dt_parse (row_published r)\<rparr>)
         (filter (\<lambda>r. text_ge (row_published r) (isoformat CHR '' '' since)) conn)"

subsection \<open>Buckets\<close>

text \<open>
  \<^verbatim>\<open>str.lower()\<close> is the lowercasing of Unicode, which is not written out here: the
  functions that call it take it as their first argument \<open>lower\<close>, a function from
  strings to strings, and what is proved of them holds whatever that function is.
\<close>

fun startswith :: "string \<Rightarrow> string \<Rightarrow> bool" where
  "startswith s [] = True"
| "startswith [] (p # ps) = False"
| "startswith (x # xs) (p # ps) = (x = p \<and> startswith xs ps)"

text \<open>\<^verbatim>\<open>needle in haystack\<close> on strings.\<close>

fun str_in :: "string \<Rightarrow> string \<Rightarrow> bool" where
  "str_in needle [] = (needle = [])"
| "str_in needle (x # xs) = (startswith (x # xs) needle \<or> str_in needle xs)"

text \<open>\<^verbatim>\<open>f"{art['title']} {art['summary']}".lower()\<close>.\<close>

definition match_text :: "(string \<Rightarrow> string) \<Rightarrow> article \<Rightarrow> string" where
  "match_text lower art = lower (art_title art @ '' '' @ art_summary art)"

text \<open>\<^verbatim>\<open>any(alias.lower() in text for alias in aliases)\<close>.\<close>

fun any_alias_in :: "(string \<Rightarrow> string) \<Rightarrow> string list \<Rightarrow> string \<Rightarrow> bool" where
  "any_alias_in lower [] txt = False"
| "any_alias_in lower (alias # aliases) txt =
     (str_in (lower alias) txt \<or> any_alias_in lower aliases txt)"

type_synonym buckets = "(string \<times> article list) list"

text \<open>\<^verbatim>\<open>buckets[ticker].append(art)\<close> on a dictionary kept in the order of its keys.\<close>

definition bucket_append :: "buckets \<Rightarrow> string \<Rightarrow> article \<Rightarrow> buckets" where
  "bucket_append bs ticker art = map (\<lambda>(k, v). if k = ticker then (k, v @ [art]) else (k, v)) bs"

text \<open>The inner loop of \<^verbatim>\<open>main\<close>, over the items of \<^verbatim>\<open>TICKERS\<close>.\<close>

fun for_tickers ::
  "(string \<Rightarrow> string) \<Rightarrow> (string \<times> string list) list \<Rightarrow> string \<Rightarrow> article \<Rightarrow> buckets
     \<Rightarrow> buckets" where
  "for_tickers lower [] txt art bs = bs"
| "for_tickers lower ((ticker, aliases) # rest) txt art bs =
     for_tickers lower rest txt art
       (if any_alias_in lower aliases txt then bucket_append bs ticker art else bs)"

text \<open>The outer loop of \<^verbatim>\<open>main\<close>, over the articles.\<close>

fun for_articles ::
  "(string \<Rightarrow> string) \<Rightarrow> (string \<times> string list) list \<Rightarrow> article list \<Rightarrow> buckets
     \<Rightarrow> buckets" where
  "for_articles lower tickers [] bs = bs"
| "for_articles lower tickers (art # arts) bs =
     for_articles lower tickers arts (for_tickers lower tickers (match_text lower art) art bs)"

text \<open>
  The buckets \<^verbatim>\<open>main\<close> builds from the articles it read, for a dictionary of tickers
  (\<^verbatim>\<open>TICKERS\<close> in the script).
\<close>

definition main_buckets ::
  "(string \<Rightarrow> string) \<Rightarrow> (string \<times> string list) list \<Rightarrow> article list \<Rightarrow> buckets" where
  "main_buckets lower tickers articles =
     for_articles lower tickers articles (map (\<lambda>(t, aliases). (t, [])) tickers)"

subsection \<open>The message\<close>

text \<open>One line of the message; the dash is U+2014, the bytes E2 80 94.\<close>

definition article_line :: "article \<Rightarrow> string" where
  "article_line art =
     ''['' @ strftime_ymd_hm (art_published art) @ ''] '' @ art_title art
       @ '' '' @ [CHR 0xE2, CHR 0x80, CHR 0x94] @ '' '' @ art_summary art"

text \<open>The loop of \<^verbatim>\<open>build_user_msg\<close>: \<^verbatim>\<open>lines.append\<close> for each article it is given.\<close>

fun append_lines :: "string list \<Rightarrow> article list \<Rightarrow> string list" where
  "append_lines lines [] = lines"
| "append_lines lines (art # arts) = append_lines (lines @ [article_line art]) arts"

fun str_join :: "string \<Rightarrow> string list \<Rightarrow> string" where
  "str_join sep [] = []"
| "str_join sep [x] = x"
| "str_join sep (x # y # zs) = x @ sep @ str_join sep (y # zs)"

text \<open>
  \<^verbatim>\<open>build_user_msg(ticker, articles)\<close>; the first argument is the value of the module's
  constant \<^verbatim>\<open>MAX_ARTICLES_PER_TICKER\<close>, and \<^verbatim>\<open>articles[:n]\<close> is \<^term>\<open>take n articles\<close>.
\<close>

definition build_user_msg :: "nat \<Rightarrow> string \<Rightarrow> article list \<Rightarrow> string" where
  "build_user_msg max_articles ticker articles =
     (if articles = []
      then ''Ticker: '' @ ticker @ [CHR 0x0A, CHR 0x0A] @ ''News:'' @ [CHR 0x0A]
             @ ''(no relevant articles)''
      else let lines = append_lines [] (take max_articles articles)
           in ''Ticker: '' @ ticker @ [CHR 0x0A, CHR 0x0A] @ ''News:'' @ [CHR 0x0A]
                @ str_join [CHR 0x0A] lines)"

text \<open>The user message \<^verbatim>\<open>main\<close> sends: one block for each bucket.\<close>

definition main_user_msg ::
  "(string \<Rightarrow> string) \<Rightarrow> (string \<times> string list) list \<Rightarrow> nat \<Rightarrow> article list \<Rightarrow> string" where
  "main_user_msg lower tickers max_articles articles =
     str_join ([CHR 0x0A, CHR 0x0A] @ ''###'' @ [CHR 0x0A, CHR 0x0A])
       (map (\<lambda>(ticker, lst). build_user_msg max_articles ticker lst)
            (main_buckets lower tickers articles))"

section \<open>Sample inputs\<close>

text \<open>Day \<open>d\<close> of January 2025, at \<open>h\<close> o'clock UTC.\<close>

definition jan :: "int \<Rightarrow> int \<Rightarrow> struct_time" where
  "jan d h = \<lparr>tm_year = 2025, tm_mon = 1, tm_mday = d, tm_hour = h, tm_min = 0, tm_sec = 0\<rparr>"

text \<open>
  Surroundings in which the clock reads \<open>clock\<close> at both places and no statement fails.
\<close>

definition quiet :: "int \<Rightarrow> ambient" where
  "quiet clock = \<lparr>clock_parse = clock, clock_check = clock,
                   select_fails = False, insert_fails = False, commit_fails = False\<rparr>"

text \<open>An entry with a link and its two timestamps, and neither title nor summary.\<close>

definition item :: "string \<Rightarrow> struct_time option \<Rightarrow> struct_time option \<Rightarrow> entry" where
  "item l p u = \<lparr>entry_link = l, entry_title = None, entry_summary = None,
                  published_parsed = p, updated_parsed = u\<rparr>"

text \<open>An article with a title and a summary.\<close>

definition news :: "string \<Rightarrow> string \<Rightarrow> article" where
  "news t s = \<lparr>art_id = ''id:'' @ t, art_title = t, art_summary = s,
               art_published = datetime_utc (jan 1 0)\<rparr>"

text \<open>
  What \<^verbatim>\<open>str.lower()\<close> does to a string in which the letters \<^verbatim>\<open>A\<close> to \<^verbatim>\<open>Z\<close> are the
  only characters that have a lowercase form of their own: the samples are such strings,
  and so are the aliases of \<^verbatim>\<open>TICKERS\<close>.
\<close>

definition lower_char :: "char \<Rightarrow> char" where
  "lower_char c =
     (case map_of (zip ''ABCDEFGHIJKLMNOPQRSTUVWXYZ'' ''abcdefghijklmnopqrstuvwxyz'') c of
        None \<Rightarrow> c
      | Some l \<Rightarrow> l)"

definition lower_ascii :: "string \<Rightarrow> string" where
  "lower_ascii s = map lower_char s"

text \<open>
  A cycle in which every feed delivers two fresh items and the \<^verbatim>\<open>INSERT\<close> of the first
  item of a feed fails; the coroutines run one after the other.
\<close>

definition failing_env :: cycle_env where
  "failing_env =
     \<lparr>feedparser_parse = (\<lambda>url. Inr [item ''https://x/a'' (Some (jan 1 12)) None,
                                      item ''https://x/b'' (Some (jan 1 12)) None]),
      ambient_of = (\<lambda>url i. (quiet (micros (datetime_utc (jan 2 0))))\<lparr>insert_fails := (i = 0)\<rparr>),
      schedule = []\<rparr>"

text \<open>
  Two feeds over the cycles: \<^verbatim>\<open>feed-u\<close> delivers nothing in cycle 0 and one item
  afterwards, every other feed delivers one item; no statement fails. In each cycle the
  event loop starts the two coroutines and resumes them in turn.
\<close>

definition retry_envs :: "nat \<Rightarrow> cycle_env" where
  "retry_envs c =
     \<lparr>feedparser_parse =
        (\<lambda>url. if url = ''feed-u''
               then (if c = 0 then Inr [] else Inr [item ''https://x/b'' (Some (jan 1 12)) None])
               else Inr [item ''https://x/a'' (Some (jan 1 12)) None]),
      ambient_of = (\<lambda>url i. quiet (micros (datetime_utc (jan 2 (int c))))),
      schedule = [0, 1, 0, 1, 0, 1]\<rparr>"

text \<open>
  A cycle in which the fetch of the first feed raises and every other feed delivers one
  fresh item; no statement fails.
\<close>

definition outage_env :: cycle_env where
  "outage_env =
     \<lparr>feedparser_parse =
        (\<lambda>url. if url = ''http://rss.cnn.com/rss/cnn_topstories.rss'' then Inl FetchError
               else Inr [item ''https://x/a'' (Some (jan 1 12)) None]),
      ambient_of = (\<lambda>url i. quiet (micros (datetime_utc (jan 2 0)))),
      schedule = []\<rparr>"

text \<open>
  Two feeds that deliver the same fresh item, their coroutines resumed in turn; no
  statement fails of itself.
\<close>

definition race_env :: cycle_env where
  "race_env =
     \<lparr>feedparser_parse = (\<lambda>url. Inr [item ''https://x/a'' (Some (jan 1 12)) None]),
      ambient_of = (\<lambda>url i. quiet (micros (datetime_utc (jan 2 0)))),
      schedule = [0, 1, 0, 1, 0, 1, 0, 1]\<rparr>"

section \<open>Facts about the model\<close>

lemma micros_jan: "micros (datetime_utc (jan d h)) = ((739250 + d) * 24 + h) * 3600000000"
  by (simp add: jan_def datetime_utc_def ymd2ord_def days_before_year_def days_before_month_def
      DAYS_BEFORE_MONTH_def is_leap_def)

lemmas calendar_simps =
  datetime_utc_def ymd2ord_def days_before_year_def days_before_month_def
  DAYS_BEFORE_MONTH_def is_leap_def

lemma select_by_id_None: "select_by_id db aid = None \<longleftrightarrow> aid \<notin> set (map row_id db)"
proof -
  have "select_by_id db aid = None \<longleftrightarrow> filter (\<lambda>r. row_id r = aid) db = []"
    by (simp add: select_by_id_def split: list.splits)
  then show ?thesis
    by (auto simp: filter_empty_conv)
qed

section \<open>The scraper's claims\<close>

text \<open>
  C3 (timestamp fallback order). For every entry, \<^verbatim>\<open>parse_datetime\<close> returns the
  entry's published timestamp when it has one, otherwise its updated timestamp when it
  has one, otherwise what the clock reads when the function is run; and the result is
  always an aware datetime in UTC.
\<close>

theorem parse_datetime_fallback:
  "(published_parsed e = Some ts \<longrightarrow> parse_datetime clock e = datetime_utc ts) \<and>
   (published_parsed e = None \<and> updated_parsed e = Some ts \<longrightarrow> parse_datetime clock e = datetime_utc ts) \<and>
   (published_parsed e = None \<and> updated_parsed e = None \<longrightarrow> parse_datetime clock e = datetime_now_utc clock) \<and>
   tzinfo (parse_datetime clock e) = Some UTC"
  by (simp add: parse_datetime_def datetime_utc_def datetime_now_utc_def split: option.splits)

theorem parse_datetime_fallback_witness:
  "parse_datetime 7 (item ''l'' (Some (jan 1 2)) (Some (jan 3 4))) = datetime_utc (jan 1 2) \<and>
   parse_datetime 7 (item ''l'' None (Some (jan 3 4))) = datetime_utc (jan 3 4) \<and>
   parse_datetime 7 (item ''l'' None None) = datetime_now_utc 7 \<and>
   tzinfo (parse_datetime 7 (item ''l'' None None)) = Some UTC"
  using parse_datetime_fallback [of "item ''l'' (Some (jan 1 2)) (Some (jan 3 4))" "jan 1 2" 7]
    parse_datetime_fallback [of "item ''l'' None (Some (jan 3 4))" "jan 3 4" 7]
    parse_datetime_fallback [of "item ''l'' None None" "jan 3 4" 7]
  by (simp add: item_def datetime_now_utc_def)

text \<open>
  C2 (freshness boundary). For an entry that is not yet stored, and when no statement
  fails, \<^verbatim>\<open>store_entry\<close> accepts the entry exactly when its resolved timestamp is not
  earlier than the clock's reading at the test minus 24 hours. A timestamp of exactly
  that instant is accepted, one a second earlier is rejected, and a timestamp at or
  after the clock's reading (a future one) is accepted: there is no upper bound.
\<close>

theorem freshness_test:
  assumes "\<not> select_fails amb" and "\<not> insert_fails amb" and "\<not> commit_fails amb"
    and "select_by_id db (article_id (entry_link e)) = None"
    and "ts = parse_datetime (clock_parse amb) e"
    and "now = datetime_now_utc (clock_check amb)"
  shows "fst (store_entry amb db url e) = Inr (micros now - 24 * 3600000000 \<le> micros ts) \<and>
         (ts = dt_sub now (timedelta_hours 24) \<longrightarrow> fst (store_entry amb db url e) = Inr True) \<and>
         (ts = dt_sub (dt_sub now (timedelta_hours 24)) (timedelta_seconds 1)
            \<longrightarrow> fst (store_entry amb db url e) = Inr False) \<and>
         (micros now \<le> micros ts \<longrightarrow> fst (store_entry amb db url e) = Inr True) \<and>
         MAX_AGE_HOURS = 24"
proof -
  have "article_id (entry_link e) \<notin> set (map row_id db)"
    using assms(4) by (simp add: select_by_id_None)
  then have main: "fst (store_entry amb db url e) = Inr (micros now - 24 * 3600000000 \<le> micros ts)"
    using assms
    by (simp add: store_entry_def Let_def insert_row_def dt_lt_def dt_sub_def timedelta_hours_def
        MAX_AGE_HOURS_def not_less)
  show ?thesis
    unfolding main
    by (simp add: dt_sub_def timedelta_hours_def timedelta_seconds_def MAX_AGE_HOURS_def)
qed

theorem freshness_test_witness:
  "fst (store_entry (quiet (micros (datetime_utc (jan 2 0)))) [] ''feed''
         (item ''https://x/a'' (Some (jan 1 0)) None)) = Inr True \<and>
   fst (store_entry (quiet (micros (datetime_utc (jan 2 0)))) [] ''feed''
         (item ''https://x/a''
            (Some \<lparr>tm_year = 2024, tm_mon = 12, tm_mday = 31, tm_hour = 23, tm_min = 59, tm_sec = 59\<rparr>)
            None)) = Inr False \<and>
   fst (store_entry (quiet (micros (datetime_utc (jan 2 0)))) [] ''feed''
         (item ''https://x/a'' (Some (jan 30 0)) None)) = Inr True \<and>
   MAX_AGE_HOURS = 24"
proof -
  let ?amb = "quiet (micros (datetime_utc (jan 2 0)))"
  let ?late = "\<lparr>tm_year = 2024, tm_mon = 12, tm_mday = 31, tm_hour = 23, tm_min = 59, tm_sec = 59\<rparr>"
  have quiet: "\<not> select_fails ?amb" "\<not> insert_fails ?amb" "\<not> commit_fails ?amb"
    by (simp_all add: quiet_def)
  have new: "select_by_id [] (article_id (entry_link e)) = None" for e
    by (simp add: select_by_id_def)
  have a: "datetime_utc (jan 1 0) = dt_sub (datetime_now_utc (clock_check ?amb)) (timedelta_hours 24)"
    by (simp add: quiet_def dt_sub_def datetime_now_utc_def timedelta_hours_def jan_def calendar_simps)
  have b: "datetime_utc ?late
             = dt_sub (dt_sub (datetime_now_utc (clock_check ?amb)) (timedelta_hours 24)) (timedelta_seconds 1)"
    by (simp add: quiet_def dt_sub_def datetime_now_utc_def timedelta_hours_def timedelta_seconds_def
        jan_def calendar_simps)
  have c: "micros (datetime_now_utc (clock_check ?amb)) \<le> micros (datetime_utc (jan 30 0))"
    by (simp add: quiet_def datetime_now_utc_def micros_jan)
  have p: "parse_datetime k (item l (Some ts) None) = datetime_utc ts" for k l ts
    by (simp add: parse_datetime_def item_def)
  note t = freshness_test [where amb = ?amb and db = "[]" and url = "''feed''", OF quiet new refl refl]
  have 1: "fst (store_entry ?amb [] ''feed'' (item ''https://x/a'' (Some (jan 1 0)) None)) = Inr True"
    by (rule mp [OF t [THEN conjunct2, THEN conjunct1]]) (simp only: p a)
  have 2: "fst (store_entry ?amb [] ''feed'' (item ''https://x/a'' (Some ?late) None)) = Inr False"
    by (rule mp [OF t [THEN conjunct2, THEN conjunct2, THEN conjunct1]]) (simp only: p b)
  have 3: "fst (store_entry ?amb [] ''feed'' (item ''https://x/a'' (Some (jan 30 0)) None)) = Inr True"
    by (rule mp [OF t [THEN conjunct2, THEN conjunct2, THEN conjunct2, THEN conjunct1]])
       (simp only: p c)
  have 4: "MAX_AGE_HOURS = 24"
    by (rule t [where e = "item ''https://x/a'' None None",
                THEN conjunct2, THEN conjunct2, THEN conjunct2, THEN conjunct2])
  from 1 2 3 4 show ?thesis
    by simp
qed

text \<open>
  C1 (idempotent ingestion), amended. For an entry whose link is not yet stored and
  whose resolved timestamp passes the freshness test, and when no statement fails, the
  first \<^verbatim>\<open>store_entry\<close> returns \<open>True\<close>, a second \<^verbatim>\<open>store_entry\<close> for the same link
  (whatever the feed, the other fields and the time) returns \<open>False\<close> and changes
  nothing, and the table holds exactly one row with the link's fingerprint.
\<close>

theorem store_entry_twice:
  assumes "\<not> select_fails a1" and "\<not> insert_fails a1" and "\<not> commit_fails a1"
    and "\<not> select_fails a2"
    and "select_by_id db (article_id (entry_link e1)) = None"
    and "\<not> dt_lt (parse_datetime (clock_parse a1) e1)
              (dt_sub (datetime_now_utc (clock_check a1)) (timedelta_hours MAX_AGE_HOURS))"
    and "entry_link e2 = entry_link e1"
    and "db1 = snd (store_entry a1 db url1 e1)"
  shows "fst (store_entry a1 db url1 e1) = Inr True \<and>
         store_entry a2 db1 url2 e2 = (Inr False, db1) \<and>
         length (filter (\<lambda>r. row_id r = article_id (entry_link e1)) db1) = 1"
proof -
  let ?aid = "article_id (entry_link e1)"
  have new: "?aid \<notin> set (map row_id db)"
    using assms(5) by (simp add: select_by_id_None)
  then have none: "filter (\<lambda>r. row_id r = ?aid) db = []"
    by (force simp: filter_empty_conv)
  define r where "r = \<lparr>row_id = ?aid,
      row_title = Some (entry_get (entry_title e1) []),
      row_link = entry_link e1,
      row_published = isoformat CHR ''T'' (parse_datetime (clock_parse a1) e1),
      row_summary = Some (entry_get (entry_summary e1) []),
      row_feed = url1\<rparr>"
  have r: "row_id r = ?aid"
    by (simp add: r_def)
  have first: "store_entry a1 db url1 e1 = (Inr True, db @ [r])"
    using assms(1,2,3,5,6) new
    by (simp add: store_entry_def Let_def insert_row_def r_def)
  have db1: "db1 = db @ [r]"
    using assms(8) first by simp
  have found: "select_by_id db1 (article_id (entry_link e2)) \<noteq> None"
    using r assms(7) by (simp add: select_by_id_None db1)
  have second: "store_entry a2 db1 url2 e2 = (Inr False, db1)"
    using assms(4) found by (simp add: store_entry_def Let_def)
  show ?thesis
    using first second r none by (simp add: db1)
qed

theorem store_entry_twice_witness:
  "fst (store_entry (quiet (micros (datetime_utc (jan 2 0)))) [] ''feed''
         (item ''https://x/a'' (Some (jan 1 12)) None)) = Inr True \<and>
   fst (store_entry (quiet (micros (datetime_utc (jan 2 1))))
         (snd (store_entry (quiet (micros (datetime_utc (jan 2 0)))) [] ''feed''
                 (item ''https://x/a'' (Some (jan 1 12)) None)))
         ''other feed'' (item ''https://x/a'' None None)) = Inr False \<and>
   length (filter (\<lambda>r. row_id r = article_id ''https://x/a'')
             (snd (store_entry (quiet (micros (datetime_utc (jan 2 1))))
                (snd (store_entry (quiet (micros (datetime_utc (jan 2 0)))) [] ''feed''
                       (item ''https://x/a'' (Some (jan 1 12)) None)))
                ''other feed'' (item ''https://x/a'' None None)))) = 1"
proof -
  let ?a1 = "quiet (micros (datetime_utc (jan 2 0)))"
  let ?a2 = "quiet (micros (datetime_utc (jan 2 1)))"
  let ?e1 = "item ''https://x/a'' (Some (jan 1 12)) None"
  let ?e2 = "item ''https://x/a'' None None"
  have "fst (store_entry ?a1 [] ''feed'' ?e1) = Inr True \<and>
        store_entry ?a2 (snd (store_entry ?a1 [] ''feed'' ?e1)) ''other feed'' ?e2
          = (Inr False, snd (store_entry ?a1 [] ''feed'' ?e1)) \<and>
        length (filter (\<lambda>r. row_id r = article_id (entry_link ?e1))
                  (snd (store_entry ?a1 [] ''feed'' ?e1))) = 1"
  proof (rule store_entry_twice)
    show "\<not> dt_lt (parse_datetime (clock_parse ?a1) ?e1)
              (dt_sub (datetime_now_utc (clock_check ?a1)) (timedelta_hours MAX_AGE_HOURS))"
      by (simp add: dt_lt_def dt_sub_def datetime_now_utc_def quiet_def item_def parse_datetime_def
          micros_jan timedelta_hours_def MAX_AGE_HOURS_def)
  qed (simp_all add: quiet_def item_def select_by_id_def)
  then show ?thesis
    by (simp add: item_def)
qed

text \<open>
  The claim as it was stated, for every item, fails on an item that is too old: both
  calls return \<open>False\<close> and no row is stored.
\<close>

theorem store_entry_stale_counterexample:
  "store_entry (quiet (micros (datetime_utc (jan 3 0)))) [] ''feed''
     (item ''https://x/a'' (Some (jan 1 0)) None) = (Inr False, []) \<and>
   store_entry (quiet (micros (datetime_utc (jan 3 0))))
     (snd (store_entry (quiet (micros (datetime_utc (jan 3 0)))) [] ''feed''
             (item ''https://x/a'' (Some (jan 1 0)) None)))
     ''feed'' (item ''https://x/a'' (Some (jan 1 0)) None) = (Inr False, [])"
proof -
  have "store_entry (quiet (micros (datetime_utc (jan 3 0)))) [] ''feed''
     (item ''https://x/a'' (Some (jan 1 0)) None) = (Inr False, [])"
    by (simp add: store_entry_def Let_def quiet_def item_def select_by_id_def parse_datetime_def
        dt_lt_def dt_sub_def datetime_now_utc_def micros_jan timedelta_hours_def MAX_AGE_HOURS_def)
  then show ?thesis
    by simp
qed

section \<open>The analyzer's claims\<close>

subsection \<open>Strings and buckets\<close>

lemma startswith_iff: "startswith h n \<longleftrightarrow> (\<exists>s. h = n @ s)"
  by (induction h n rule: startswith.induct) auto

lemma str_in_iff: "str_in n h \<longleftrightarrow> (\<exists>p s. h = p @ n @ s)"
proof (induction h)
  case Nil
  then show ?case by auto
next
  case (Cons x xs)
  have "(\<exists>p s. x # xs = p @ n @ s) \<longleftrightarrow> (\<exists>s. x # xs = n @ s) \<or> (\<exists>p s. xs = p @ n @ s)"
  proof
    assume "\<exists>p s. x # xs = p @ n @ s"
    then obtain p s where eq: "x # xs = p @ n @ s" by blast
    show "(\<exists>s. x # xs = n @ s) \<or> (\<exists>p s. xs = p @ n @ s)"
    proof (cases p)
      case Nil
      with eq show ?thesis by auto
    next
      case (Cons y p')
      with eq have "xs = p' @ n @ s" by simp
      then show ?thesis by blast
    qed
  next
    assume "(\<exists>s. x # xs = n @ s) \<or> (\<exists>p s. xs = p @ n @ s)"
    then show "\<exists>p s. x # xs = p @ n @ s"
    proof
      assume "\<exists>s. x # xs = n @ s"
      then obtain s where "x # xs = [] @ n @ s" by auto
      then show ?thesis by blast
    next
      assume "\<exists>p s. xs = p @ n @ s"
      then obtain p s where "x # xs = (x # p) @ n @ s" by auto
      then show ?thesis by blast
    qed
  qed
  with Cons show ?case
    by (simp add: startswith_iff)
qed

lemma any_alias_in_iff: "any_alias_in lower aliases txt \<longleftrightarrow> (\<exists>alias\<in>set aliases. str_in (lower alias) txt)"
  by (induction aliases) auto

lemma for_tickers_map:
  "distinct (map fst rest) \<Longrightarrow>
   for_tickers lower rest txt art bs =
     map (\<lambda>(k, v). (k, if \<exists>al. (k, al) \<in> set rest \<and> any_alias_in lower al txt then v @ [art] else v)) bs"
proof (induction rest arbitrary: bs)
  case Nil
  then show ?case by (simp add: case_prod_unfold)
next
  case (Cons ta rest)
  obtain t al where ta: "ta = (t, al)" by (cases ta)
  from Cons.prems ta have fresh: "\<And>al'. (t, al') \<notin> set rest" and d: "distinct (map fst rest)"
    by (auto simp: image_iff)
  show ?case
    unfolding ta for_tickers.simps Cons.IH [OF d]
    using fresh by (auto simp: bucket_append_def)
qed

lemma for_articles_map:
  "distinct (map fst tickers) \<Longrightarrow>
   for_articles lower tickers arts bs =
     map (\<lambda>(k, v). (k, v @ filter (\<lambda>a. \<exists>al. (k, al) \<in> set tickers \<and> any_alias_in lower al (match_text lower a)) arts)) bs"
proof (induction arts arbitrary: bs)
  case Nil
  then show ?case by (simp add: case_prod_unfold)
next
  case (Cons a arts)
  show ?case
    unfolding for_articles.simps Cons.IH [OF Cons.prems] for_tickers_map [OF Cons.prems]
    by (auto simp: case_prod_unfold)
qed

lemma main_buckets_eq:
  assumes "distinct (map fst tickers)"
  shows "main_buckets lower tickers arts =
           map (\<lambda>(t, aliases). (t, filter (\<lambda>a. any_alias_in lower aliases (match_text lower a)) arts)) tickers"
proof -
  have "main_buckets lower tickers arts =
          map (\<lambda>(t, aliases). (t, filter (\<lambda>a. \<exists>al. (t, al) \<in> set tickers \<and> any_alias_in lower al (match_text lower a)) arts)) tickers"
    unfolding main_buckets_def for_articles_map [OF assms]
    by (simp add: case_prod_unfold)
  also have "\<dots> = map (\<lambda>(t, aliases). (t, filter (\<lambda>a. any_alias_in lower aliases (match_text lower a)) arts)) tickers"
  proof (rule map_cong [OF refl])
    fix x assume x: "x \<in> set tickers"
    obtain t aliases where ta: "x = (t, aliases)" by (cases x)
    have "al = aliases" if "(t, al) \<in> set tickers" for al
      using eq_key_imp_eq_value [OF assms that] x ta by simp
    then have "(\<exists>al. (t, al) \<in> set tickers \<and> any_alias_in lower al s) \<longleftrightarrow> any_alias_in lower aliases s" for s
      using x ta by blast
    then show "(case x of (t, aliases) \<Rightarrow> (t, filter (\<lambda>a. \<exists>al. (t, al) \<in> set tickers \<and> any_alias_in lower al (match_text lower a)) arts))
             = (case x of (t, aliases) \<Rightarrow> (t, filter (\<lambda>a. any_alias_in lower aliases (match_text lower a)) arts))"
      by (simp add: ta)
  qed
  finally show ?thesis .
qed

lemma map_of_main_buckets:
  assumes "distinct (map fst tickers)" and "(t, aliases) \<in> set tickers"
  shows "map_of (main_buckets lower tickers arts) t
           = Some (filter (\<lambda>a. any_alias_in lower aliases (match_text lower a)) arts)"
proof -
  have "map_of (map (\<lambda>(t, al). (t, f al)) tickers) t = Some (f aliases)" for f :: "string list \<Rightarrow> article list"
    using assms by (induction tickers) (auto simp: image_iff)
  then show ?thesis
    by (simp add: main_buckets_eq [OF assms(1)])
qed

lemma distinct_TICKERS: "distinct (map fst TICKERS)"
  by code_simp

text \<open>
  C7 (bucketing containment), amended. For a dictionary of tickers (its keys distinct,
  as the keys of a dictionary are) and every ticker of it, the bucket \<^verbatim>\<open>main\<close> builds
  for the ticker holds exactly the articles, in the order they were read, for which some
  alias of the ticker, lowercased, occurs as a substring of the lowercased text made of
  the title, one space and the summary. The match is on substrings, not on words, and
  an article lands in as many buckets as have a matching alias. Lowercased is what
  \<^verbatim>\<open>str.lower()\<close> makes of a string, whatever that is: the statement holds for every
  function \<open>lower\<close>.
\<close>

theorem bucket_membership:
  assumes "distinct (map fst tickers)" and "(t, aliases) \<in> set tickers"
  shows "map_of (main_buckets lower tickers arts) t
           = Some (filter (\<lambda>a. any_alias_in lower aliases (match_text lower a)) arts) \<and>
         (\<forall>a. any_alias_in lower aliases (match_text lower a) \<longleftrightarrow>
              (\<exists>alias\<in>set aliases. \<exists>p s.
                 lower (art_title a @ '' '' @ art_summary a) = p @ lower alias @ s))"
  using map_of_main_buckets [OF assms]
  by (simp add: any_alias_in_iff str_in_iff match_text_def)


text \<open>
  The example of the specification, and articles that land in two buckets, in one bucket
  by a match inside a longer word (\<^verbatim>\<open>Metabolism\<close>), and in none.
\<close>

theorem bucket_membership_witness:
  "map_of (main_buckets lower_ascii [(''ABC'', [''Acme''])]
             [news ''Acme reports earnings'' '''', news ''No relation'' ''''])
          ''ABC''
     = Some [news ''Acme reports earnings'' ''''] \<and>
   map_of (main_buckets lower_ascii TICKERS
             [news ''Amazon and Meta earnings'' '''', news ''Metabolism study'' ''nothing'',
              news ''No relation'' ''''])
          ''META''
     = Some [news ''Amazon and Meta earnings'' '''', news ''Metabolism study'' ''nothing''] \<and>
   map_of (main_buckets lower_ascii TICKERS
             [news ''Amazon and Meta earnings'' '''', news ''Metabolism study'' ''nothing'',
              news ''No relation'' ''''])
          ''AMZN''
     = Some [news ''Amazon and Meta earnings'' '''']"
proof -
  let ?arts = "[news ''Amazon and Meta earnings'' '''', news ''Metabolism study'' ''nothing'',
                news ''No relation'' '''']"
  have 1: "(''ABC'', [''Acme'']) \<in> set [(''ABC'', [''Acme''])]"
    and 2: "(''META'', [''Meta'', ''Facebook'']) \<in> set TICKERS"
    and 3: "(''AMZN'', [''Amazon'', ''Amazon.com'']) \<in> set TICKERS"
    by code_simp+
  have d: "distinct (map fst [(''ABC'', [''Acme''])])"
    by simp
  have f1: "filter (\<lambda>a. any_alias_in lower_ascii [''Acme''] (match_text lower_ascii a))
              [news ''Acme reports earnings'' '''', news ''No relation'' '''']
            = [news ''Acme reports earnings'' '''']"
    by code_simp
  have f2: "filter (\<lambda>a. any_alias_in lower_ascii [''Meta'', ''Facebook''] (match_text lower_ascii a)) ?arts
            = [news ''Amazon and Meta earnings'' '''', news ''Metabolism study'' ''nothing'']"
    by code_simp
  have f3: "filter (\<lambda>a. any_alias_in lower_ascii [''Amazon'', ''Amazon.com''] (match_text lower_ascii a)) ?arts
            = [news ''Amazon and Meta earnings'' '''']"
    by code_simp
  show ?thesis
    unfolding bucket_membership [OF d 1, THEN conjunct1]
      bucket_membership [OF distinct_TICKERS 2, THEN conjunct1]
      bucket_membership [OF distinct_TICKERS 3, THEN conjunct1] f1 f2 f3
    by simp
qed

text \<open>
  The claim as it was stated, on the concatenation of title and summary, fails: the
  alias \<^verbatim>\<open>Tesla\<close> occurs in the concatenation of the title \<^verbatim>\<open>Tes\<close> and the summary
  \<^verbatim>\<open>la\<close>, and the article is not in the bucket.
\<close>

theorem bucket_plain_concatenation_counterexample:
  "(''TSLA'', [''Tesla'']) \<in> set TICKERS \<and>
   lower_ascii (art_title (news ''Tes'' ''la'') @ art_summary (news ''Tes'' ''la'')) = lower_ascii ''Tesla'' \<and>
   map_of (main_buckets lower_ascii TICKERS [news ''Tes'' ''la'']) ''TSLA'' = Some []"
proof -
  have m: "(''TSLA'', [''Tesla'']) \<in> set TICKERS"
    by code_simp
  have l: "lower_ascii (art_title (news ''Tes'' ''la'') @ art_summary (news ''Tes'' ''la'')) = lower_ascii ''Tesla''"
    by code_simp
  have f: "filter (\<lambda>a. any_alias_in lower_ascii [''Tesla''] (match_text lower_ascii a)) [news ''Tes'' ''la''] = []"
    by code_simp
  show ?thesis
    unfolding map_of_main_buckets [OF distinct_TICKERS m] f
    using m l by simp
qed





lemma append_lines_eq: "append_lines acc arts = acc @ map article_line arts"
  by (induction arts arbitrary: acc) auto

text \<open>
  C8 (per-topic truncation). The block \<^verbatim>\<open>main\<close> writes for a ticker is
  \<^verbatim>\<open>build_user_msg\<close> of the ticker's bucket, which holds the matching articles in the
  order the table was read; \<^verbatim>\<open>build_user_msg\<close> renders the first \<open>n\<close> articles of the
  list it is given, in that order, and no others, where \<open>n\<close> is
  \<^verbatim>\<open>MAX_ARTICLES_PER_TICKER\<close> (8 in the script): at most \<open>n\<close> articles, a prefix of the
  list. The articles are read in the order of the table's rows. With \<open>n = 2\<close> and five
  articles the message holds the first two.
\<close>

theorem per_topic_truncation:
  assumes "distinct (map fst tickers)"
  shows "main_user_msg lower tickers n arts
           = str_join ([CHR 0x0A, CHR 0x0A] @ ''###'' @ [CHR 0x0A, CHR 0x0A])
               (map (\<lambda>(t, aliases).
                       build_user_msg n t (filter (\<lambda>a. any_alias_in lower aliases (match_text lower a)) arts))
                    tickers) \<and>
         (lst \<noteq> [] \<longrightarrow>
            build_user_msg n t lst
              = ''Ticker: '' @ t @ [CHR 0x0A, CHR 0x0A] @ ''News:'' @ [CHR 0x0A]
                  @ str_join [CHR 0x0A] (map article_line (take n lst))) \<and>
         length (take n lst) = min n (length lst) \<and>
         take n lst @ drop n lst = lst \<and>
         map art_id (fetch_recent_articles dt_parse conn since)
           = map row_id (filter (\<lambda>r. text_ge (row_published r) (isoformat CHR '' '' since)) conn) \<and>
         build_user_msg 2 t [a1, a2, a3, a4, a5]
           = ''Ticker: '' @ t @ [CHR 0x0A, CHR 0x0A] @ ''News:'' @ [CHR 0x0A]
               @ article_line a1 @ [CHR 0x0A] @ article_line a2 \<and>
         MAX_ARTICLES_PER_TICKER = 8"
proof -
  have "map (\<lambda>(t, lst). build_user_msg n t lst) (main_buckets lower tickers arts)
          = map (\<lambda>(t, aliases).
                   build_user_msg n t (filter (\<lambda>a. any_alias_in lower aliases (match_text lower a)) arts))
                tickers"
    by (simp add: main_buckets_eq [OF assms] case_prod_unfold comp_def)
  then show ?thesis
    by (simp add: main_user_msg_def build_user_msg_def append_lines_eq MAX_ARTICLES_PER_TICKER_def
        fetch_recent_articles_def comp_def)
qed

theorem per_topic_truncation_witness:
  "main_user_msg lower_ascii [(''ABC'', [''Acme''])] 2
     [news ''Acme one'' ''a'', news ''Other'' ''b'', news ''Acme two'' ''c'',
      news ''ACME three'' ''d'', news ''x'' ''acme four'', news ''Acme five'' ''e'']
   = ''Ticker: ABC'' @ [CHR 0x0A, CHR 0x0A] @ ''News:'' @ [CHR 0x0A]
       @ ''[2025-01-01 00:00] Acme one '' @ [CHR 0xE2, CHR 0x80, CHR 0x94] @ '' a'' @ [CHR 0x0A]
       @ ''[2025-01-01 00:00] Acme two '' @ [CHR 0xE2, CHR 0x80, CHR 0x94] @ '' c''"
proof -
  have d: "distinct (map fst [(''ABC'', [''Acme''])])"
    by simp
  have s: "strftime_ymd_hm (datetime_utc (jan 1 0)) = ''2025-01-01 00:00''"
    by code_simp
  have m: "filter (\<lambda>a. any_alias_in lower_ascii [''Acme''] (match_text lower_ascii a))
             [news ''Acme one'' ''a'', news ''Other'' ''b'', news ''Acme two'' ''c'',
              news ''ACME three'' ''d'', news ''x'' ''acme four'', news ''Acme five'' ''e'']
           = [news ''Acme one'' ''a'', news ''Acme two'' ''c'',
              news ''ACME three'' ''d'', news ''x'' ''acme four'', news ''Acme five'' ''e'']"
    by code_simp
  have l: "article_line (news x y)
             = ''['' @ strftime_ymd_hm (datetime_utc (jan 1 0)) @ ''] '' @ x
                 @ '' '' @ [CHR 0xE2, CHR 0x80, CHR 0x94] @ '' '' @ y" for x y
    by (simp add: article_line_def news_def)
  have "main_user_msg lower_ascii [(''ABC'', [''Acme''])] 2
          [news ''Acme one'' ''a'', news ''Other'' ''b'', news ''Acme two'' ''c'',
           news ''ACME three'' ''d'', news ''x'' ''acme four'', news ''Acme five'' ''e'']
        = build_user_msg 2 ''ABC''
            (filter (\<lambda>a. any_alias_in lower_ascii [''Acme''] (match_text lower_ascii a))
               [news ''Acme one'' ''a'', news ''Other'' ''b'', news ''Acme two'' ''c'',
                news ''ACME three'' ''d'', news ''x'' ''acme four'', news ''Acme five'' ''e''])"
    unfolding per_topic_truncation [OF d, THEN conjunct1]
    by (simp only: list.map prod.case str_join.simps)
  also have "\<dots> = build_user_msg 2 ''ABC''
            [news ''Acme one'' ''a'', news ''Acme two'' ''c'',
             news ''ACME three'' ''d'', news ''x'' ''acme four'', news ''Acme five'' ''e'']"
    by (simp only: m)
  also have "\<dots> = ''Ticker: '' @ ''ABC'' @ [CHR 0x0A, CHR 0x0A] @ ''News:'' @ [CHR 0x0A]
               @ str_join [CHR 0x0A]
                   (map article_line
                      (take 2 [news ''Acme one'' ''a'', news ''Acme two'' ''c'',
                               news ''ACME three'' ''d'', news ''x'' ''acme four'',
                               news ''Acme five'' ''e'']))"
    by (rule mp [OF per_topic_truncation [OF d, THEN conjunct2, THEN conjunct1]]) simp
  also have "\<dots> = ''Ticker: '' @ ''ABC'' @ [CHR 0x0A, CHR 0x0A] @ ''News:'' @ [CHR 0x0A]
               @ article_line (news ''Acme one'' ''a'') @ [CHR 0x0A]
               @ article_line (news ''Acme two'' ''c'')"
    by simp
  also have "\<dots> = ''Ticker: ABC'' @ [CHR 0x0A, CHR 0x0A] @ ''News:'' @ [CHR 0x0A]
       @ ''[2025-01-01 00:00] Acme one '' @ [CHR 0xE2, CHR 0x80, CHR 0x94] @ '' a'' @ [CHR 0x0A]
       @ ''[2025-01-01 00:00] Acme two '' @ [CHR 0xE2, CHR 0x80, CHR 0x94] @ '' c''"
    by (simp add: l s)
  finally show ?thesis .
qed

text \<open>
  C9 (no missing text fields). A row written by \<^verbatim>\<open>store_entry\<close> holds the empty string
  as its title when the entry has no title, and as its summary when it has no summary;
  and \<^verbatim>\<open>fetch_recent_articles\<close> gives every article it returns the row's title and
  summary with NULL replaced by the empty string. The title and the summary of an
  article are therefore strings in every case (a \<^typ>\<open>string\<close> in \<^typ>\<open>article\<close>),
  which is what the bucket matching and \<^verbatim>\<open>build_user_msg\<close> read: the text matched
  for an article is built from these strings.
\<close>

theorem null_text_fields:
  "(fst (store_entry amb db url e) = Inr True \<longrightarrow>
      (\<exists>r. snd (store_entry amb db url e) = db @ [r] \<and>
           row_title r = Some (case entry_title e of None \<Rightarrow> [] | Some x \<Rightarrow> x) \<and>
           row_summary r = Some (case entry_summary e of None \<Rightarrow> [] | Some x \<Rightarrow> x))) \<and>
   map art_title (fetch_recent_articles dt_parse conn since)
     = map (\<lambda>r. case row_title r of None \<Rightarrow> [] | Some x \<Rightarrow> x)
           (filter (\<lambda>r. text_ge (row_published r) (isoformat CHR '' '' since)) conn) \<and>
   map art_summary (fetch_recent_articles dt_parse conn since)
     = map (\<lambda>r. case row_summary r of None \<Rightarrow> [] | Some x \<Rightarrow> x)
           (filter (\<lambda>r. text_ge (row_published r) (isoformat CHR '' '' since)) conn) \<and>
   map (match_text lower) (fetch_recent_articles dt_parse conn since)
     = map (\<lambda>r. lower ((case row_title r of None \<Rightarrow> [] | Some x \<Rightarrow> x) @ '' ''
                        @ (case row_summary r of None \<Rightarrow> [] | Some x \<Rightarrow> x)))
           (filter (\<lambda>r. text_ge (row_published r) (isoformat CHR '' '' since)) conn)"
proof -
  have or_empty: "or_empty v = (case v of None \<Rightarrow> [] | Some x \<Rightarrow> x)" for v
    by (simp add: or_empty_def split: option.splits)
  have stored: "\<exists>r. snd (store_entry amb db url e) = db @ [r] \<and>
           row_title r = Some (case entry_title e of None \<Rightarrow> [] | Some x \<Rightarrow> x) \<and>
           row_summary r = Some (case entry_summary e of None \<Rightarrow> [] | Some x \<Rightarrow> x)"
    if "fst (store_entry amb db url e) = Inr True"
    using that
    by (auto simp: store_entry_def Let_def insert_row_def entry_get_def
        split: if_splits sum.splits)
  show ?thesis
    using stored by (simp add: fetch_recent_articles_def or_empty comp_def match_text_def)
qed


lemma isoformat_jan_2_1: "isoformat CHR ''T'' (datetime_utc (jan 2 1)) = ''2025-01-02T01:00:00+00:00''"
  by code_simp

lemma isoformat_jan_2_12: "isoformat CHR '' '' (datetime_utc (jan 2 12)) = ''2025-01-02 12:00:00+00:00''"
  by code_simp

lemma store_entry_quiet_new:
  assumes "micros (datetime_utc ts) \<ge> clock - 86400000000"
  shows "store_entry (quiet clock) [] url (item l (Some ts) u)
           = (Inr True, [\<lparr>row_id = article_id l, row_title = Some [], row_link = l,
                           row_published = isoformat CHR ''T'' (datetime_utc ts),
                           row_summary = Some [], row_feed = url\<rparr>])"
  using assms
  by (simp add: store_entry_def Let_def quiet_def item_def select_by_id_def parse_datetime_def
      dt_lt_def dt_sub_def datetime_now_utc_def timedelta_hours_def MAX_AGE_HOURS_def
      insert_row_def entry_get_def)

theorem null_text_fields_witness:
  "row_title (last (snd (store_entry (quiet (micros (datetime_utc (jan 2 2)))) [] ''feed''
                           (item ''https://x/a'' (Some (jan 2 1)) None)))) = Some [] \<and>
   row_summary (last (snd (store_entry (quiet (micros (datetime_utc (jan 2 2)))) [] ''feed''
                           (item ''https://x/a'' (Some (jan 2 1)) None)))) = Some [] \<and>
   map art_title (fetch_recent_articles (\<lambda>s. datetime_utc (jan 2 1))
       [\<lparr>row_id = ''k'', row_title = None, row_link = ''https://x/k'',
         row_published = ''2025-01-02T13:00:00+00:00'', row_summary = None, row_feed = ''feed''\<rparr>]
       (datetime_utc (jan 2 12))) = [[]] \<and>
   map art_summary (fetch_recent_articles (\<lambda>s. datetime_utc (jan 2 1))
       [\<lparr>row_id = ''k'', row_title = None, row_link = ''https://x/k'',
         row_published = ''2025-01-02T13:00:00+00:00'', row_summary = None, row_feed = ''feed''\<rparr>]
       (datetime_utc (jan 2 12))) = [[]]"
proof -
  let ?call = "store_entry (quiet (micros (datetime_utc (jan 2 2)))) [] ''feed''
                 (item ''https://x/a'' (Some (jan 2 1)) None)"
  have ok: "fst ?call = Inr True"
    by (simp add: store_entry_quiet_new micros_jan)
  from null_text_fields [THEN conjunct1, rule_format, OF ok]
  obtain r where "snd ?call = [] @ [r]"
    and "row_title r = Some (case entry_title (item ''https://x/a'' (Some (jan 2 1)) None) of
                               None \<Rightarrow> [] | Some x \<Rightarrow> x)"
    and "row_summary r = Some (case entry_summary (item ''https://x/a'' (Some (jan 2 1)) None) of
                               None \<Rightarrow> [] | Some x \<Rightarrow> x)"
    by blast
  then have stored: "row_title (last (snd ?call)) = Some []" "row_summary (last (snd ?call)) = Some []"
    by (simp_all add: item_def)
  note read = null_text_fields [where dt_parse = "\<lambda>s. datetime_utc (jan 2 1)"
      and since = "datetime_utc (jan 2 12)", THEN conjunct2]
  show ?thesis
    using stored by (simp add: read isoformat_jan_2_12)
qed

text \<open>
  C4 (the time-windowed read). The scraper writes timestamps with \<^verbatim>\<open>isoformat()\<close>,
  date and time separated by \<^verbatim>\<open>T\<close>; \<^verbatim>\<open>fetch_recent_articles\<close> compares them, as
  text, with \<^verbatim>\<open>since.isoformat(" ")\<close>, date and time separated by a space. A space
  sorts before \<^verbatim>\<open>T\<close>, so every row of the cutoff's own day passes the comparison: the
  article stored with the timestamp 2025-01-02 01:00 is returned for the cutoff
  2025-01-02 12:00, eleven hours after it.
\<close>

theorem fetch_recent_articles_same_day:
  "snd (store_entry (quiet (micros (datetime_utc (jan 2 2)))) [] ''feed''
          (item ''https://x/a'' (Some (jan 2 1)) None))
     = [\<lparr>row_id = article_id ''https://x/a'', row_title = Some [], row_link = ''https://x/a'',
          row_published = ''2025-01-02T01:00:00+00:00'', row_summary = Some [],
          row_feed = ''feed''\<rparr>] \<and>
   isoformat CHR '' '' (datetime_utc (jan 2 12)) = ''2025-01-02 12:00:00+00:00'' \<and>
   dt_lt (datetime_utc (jan 2 1)) (datetime_utc (jan 2 12)) \<and>
   map art_id
     (fetch_recent_articles dt_parse
        (snd (store_entry (quiet (micros (datetime_utc (jan 2 2)))) [] ''feed''
                (item ''https://x/a'' (Some (jan 2 1)) None)))
        (datetime_utc (jan 2 12)))
     = [article_id ''https://x/a'']"
  by (simp add: store_entry_quiet_new micros_jan isoformat_jan_2_1 isoformat_jan_2_12
      fetch_recent_articles_def dt_lt_def)

section \<open>The scraper's loop\<close>

subsection \<open>Comprehension and cycles\<close>

lemma store_entries_append:
  "store_entries amb i db url (es1 @ es2) =
     (case store_entries amb i db url es1 of
        (Inl err, db') \<Rightarrow> (Inl err, db')
      | (Inr bs, db') \<Rightarrow>
          (case store_entries amb (i + length es1) db' url es2 of
             (Inl err, db'') \<Rightarrow> (Inl err, db'')
           | (Inr bs', db'') \<Rightarrow> (Inr (bs @ bs'), db'')))"
proof (induction es1 arbitrary: i db)
  case Nil
  then show ?case
    by (simp split: prod.splits sum.splits)
next
  case (Cons e es1)
  show ?case
    by (simp add: Cons.IH split: prod.splits sum.splits)
qed

lemma poll_cycles_add:
  "poll_cycles envs feeds c (k + n) db =
     (case poll_cycles envs feeds c k db of
        (Inl err, db') \<Rightarrow> (Inl err, db')
      | (Inr logged, db') \<Rightarrow>
          (case poll_cycles envs feeds (c + k) n db' of
             (Inl err, db'') \<Rightarrow> (Inl err, db'')
           | (Inr logged', db'') \<Rightarrow> (Inr (logged @ logged'), db'')))"
proof (induction k arbitrary: c db)
  case 0
  then show ?case
    by (simp split: prod.splits sum.splits)
next
  case (Suc k)
  show ?case
    by (simp add: Suc.IH split: prod.splits sum.splits)
qed

subsection \<open>A coroutine run on its own\<close>

declare run_to_end.simps(3,4) [simp del]

lemma run_to_end_SELECT:
  "run_to_end env u db (Suspended SELECT i bs e es) =
     (case store_entry (ambient_of env u i) db u e of
        (Inl err, db') \<Rightarrow> (Inl err, db')
      | (Inr b, db') \<Rightarrow> run_to_end env u db' (next_entry (Suc i) (bs @ [b]) es))"
  by (simp add: run_to_end.simps(4) resume_def store_entry_def Let_def split: sum.splits)

lemma run_to_end_next_entry:
  "run_to_end env u db (next_entry i bs es) =
     (case store_entries (ambient_of env u) i db u es of
        (Inl err, db') \<Rightarrow> (Inl err, db')
      | (Inr bs', db') \<Rightarrow> (Inr (length (filter (\<lambda>b. b) (bs @ bs'))), db'))"
proof (induction es arbitrary: i bs db)
  case Nil
  then show ?case
    by (simp add: next_entry_def)
next
  case (Cons e es)
  have "run_to_end env u db (next_entry i bs (e # es)) = run_to_end env u db (Suspended SELECT i bs e es)"
    by (simp add: next_entry_def)
  then show ?case
    by (simp add: run_to_end_SELECT Cons.IH split: prod.splits sum.splits)
qed

lemma run_to_end_Created: "run_to_end env u db Created = fetch_feed env db u"
proof (cases "feedparser_parse env u")
  case (Inl err)
  then show ?thesis
    by (simp add: run_to_end.simps(3) resume_def fetch_feed_def)
next
  case (Inr parsed)
  then have "run_to_end env u db Created = run_to_end env u db (next_entry 0 [] parsed)"
    by (simp add: run_to_end.simps(3) resume_def)
  with Inr show ?thesis
    by (simp add: run_to_end_next_entry fetch_feed_def split: prod.splits sum.splits)
qed

lemma follow_Nil: "follow env sched [] db = (Inr [], db)"
  by (induction sched) auto

lemma follow_append:
  "follow env (s1 @ s2) tasks db =
     (case follow env s1 tasks db of
        (Inl err, db') \<Rightarrow> (Inl err, db')
      | (Inr tasks', db') \<Rightarrow> follow env s2 tasks' db')"
  by (induction s1 arbitrary: tasks db) (auto split: prod.splits coroutine.splits)

lemma run_rest_Created:
  "run_rest env (map (\<lambda>url. (url, Created)) (url # urls)) db =
     (case fetch_feed env db url of
        (Inl err, db') \<Rightarrow> (Inl err, db')
      | (Inr k, db') \<Rightarrow>
          (case run_rest env (map (\<lambda>url. (url, Created)) urls) db' of
             (Inl err, db'') \<Rightarrow> (Inl err, db'')
           | (Inr ks, db'') \<Rightarrow> (Inr (k # ks), db'')))"
  by (simp add: run_to_end_Created)

lemma gather_fetch_feed_Nil: "gather_fetch_feed env db [] = (Inr [], db)"
  by (simp add: gather_fetch_feed_def follow_Nil)

lemma gather_fetch_feed_in_turn:
  assumes "schedule env = []"
  shows "gather_fetch_feed env db (url # urls) =
     (case fetch_feed env db url of
        (Inl err, db') \<Rightarrow> (Inl err, db')
      | (Inr k, db') \<Rightarrow>
          (case gather_fetch_feed env db' urls of
             (Inl err, db'') \<Rightarrow> (Inl err, db'')
           | (Inr ks, db'') \<Rightarrow> (Inr (k # ks), db'')))"
  using assms by (simp add: gather_fetch_feed_def run_to_end_Created split: prod.splits sum.splits)

lemma run_rest_append:
  "run_rest env (xs @ ys) db =
     (case run_rest env xs db of
        (Inl err, db') \<Rightarrow> (Inl err, db')
      | (Inr ks, db') \<Rightarrow>
          (case run_rest env ys db' of
             (Inl err, db'') \<Rightarrow> (Inl err, db'')
           | (Inr ks', db'') \<Rightarrow> (Inr (ks @ ks'), db'')))"
proof (induction xs arbitrary: db)
  case Nil
  then show ?case
    by (simp split: prod.splits sum.splits)
next
  case (Cons x xs)
  obtain u co where x: "x = (u, co)" by (cases x)
  show ?case
    by (simp add: x Cons.IH split: prod.splits sum.splits)
qed

lemma run_rest_length: "run_rest env tasks db = (Inr ks, db') \<Longrightarrow> length ks = length tasks"
  by (induction tasks arbitrary: db ks) (auto split: prod.splits sum.splits)

lemma gather_fetch_feed_in_turn_append:
  assumes "schedule env = []"
  shows "gather_fetch_feed env db (xs @ ys) =
     (case gather_fetch_feed env db xs of
        (Inl err, db') \<Rightarrow> (Inl err, db')
      | (Inr ks, db') \<Rightarrow>
          (case gather_fetch_feed env db' ys of
             (Inl err, db'') \<Rightarrow> (Inl err, db'')
           | (Inr ks', db'') \<Rightarrow> (Inr (ks @ ks'), db'')))"
  using assms by (simp add: gather_fetch_feed_def run_rest_append split: prod.splits sum.splits)

subsection \<open>A source that delivers nothing\<close>

lemma resume_schedule: "resume (env\<lparr>schedule := s\<rparr>) u db co = resume env u db co"
  by (cases co) (simp_all add: resume_def)

lemma run_to_end_schedule: "run_to_end (env\<lparr>schedule := s\<rparr>) u db co = run_to_end env u db co"
proof (induction env u db co rule: run_to_end.induct)
  case (1 env feed_url db k)
  then show ?case by simp
next
  case (2 env feed_url db err)
  then show ?case by simp
next
  case (3 env feed_url db)
  then show ?case
    by (simp add: run_to_end.simps(3) resume_schedule split: prod.splits)
next
  case (4 env feed_url db a i bs entry es)
  then show ?case
    by (simp add: run_to_end.simps(4) resume_schedule split: prod.splits)
qed

lemma follow_schedule: "follow (env\<lparr>schedule := s\<rparr>) sched tasks db = follow env sched tasks db"
  by (induction sched arbitrary: tasks db)
     (simp_all add: resume_schedule split: prod.splits coroutine.splits)

lemma run_rest_schedule: "run_rest (env\<lparr>schedule := s\<rparr>) tasks db = run_rest env tasks db"
  by (induction tasks arbitrary: db) (auto simp: run_to_end_schedule split: prod.splits sum.splits)

lemma follow_length: "follow env sched tasks db = (Inr T, db') \<Longrightarrow> length T = length tasks"
proof (induction sched arbitrary: tasks db)
  case Nil
  then show ?case by simp
next
  case (Cons k sched)
  show ?case
  proof (cases "k < length tasks")
    case False
    with Cons show ?thesis by simp
  next
    case True
    obtain co d where r: "resume env (fst (tasks ! k)) db (snd (tasks ! k)) = (co, d)"
      by (cases "resume env (fst (tasks ! k)) db (snd (tasks ! k))")
    from Cons.prems True r have "follow env sched (tasks[k := (fst (tasks ! k), co)]) d = (Inr T, db')"
      by (simp split: coroutine.splits)
    from Cons.IH [OF this] show ?thesis by simp
  qed
qed

lemma resume_failed:
  assumes "feedparser_parse env u = Inr []" and "c = Created \<or> c = Returned 0"
  shows "resume env u db c = (Returned 0, db)"
  using assms by (auto simp: resume_def next_entry_def)

lemma run_to_end_failed:
  assumes "feedparser_parse env u = Inr []" and "c = Created \<or> c = Returned 0"
  shows "run_to_end env u db c = (Inr 0, db)"
  using assms by (auto simp: run_to_end.simps(3) resume_def next_entry_def)

lemma follow_without_task:
  assumes "feedparser_parse env u = Inr []" and "c = Created \<or> c = Returned 0"
    and "length A = m"
  shows "\<exists>c'. (c' = Created \<or> c' = Returned 0) \<and>
           follow env s (A @ (u, c) # B) db =
             (case follow env (without_task m s) (A @ B) db of
                (Inl err, db') \<Rightarrow> (Inl err, db')
              | (Inr T, db') \<Rightarrow> (Inr (take m T @ (u, c') # drop m T), db'))"
  using assms(2,3)
proof (induction s arbitrary: A B c db)
  case Nil
  then show ?case
    by (simp add: without_task_def)
next
  case (Cons k s)
  note c = Cons.prems(1) and m = Cons.prems(2)
  have ih: "\<exists>c'. (c' = Created \<or> c' = Returned 0) \<and>
           follow env s (A' @ (u, c0) # B') d =
             (case follow env (without_task m s) (A' @ B') d of
                (Inl err, db') \<Rightarrow> (Inl err, db')
              | (Inr T, db') \<Rightarrow> (Inr (take m T @ (u, c') # drop m T), db'))"
    if "c0 = Created \<or> c0 = Returned 0" and "length A' = m" for A' B' c0 d
    using Cons.IH [OF that] .
  consider (before) "k < length A" | (self) "k = length A" | (after) "length A < k"
    by linarith
  then show ?case
  proof cases
    case before
    obtain co db' where r: "resume env (fst (A ! k)) db (snd (A ! k)) = (co, db')"
      by (cases "resume env (fst (A ! k)) db (snd (A ! k))")
    have w: "without_task m (k # s) = k # without_task m s"
      using before m by (simp add: without_task_def)
    show ?thesis
    proof (cases "\<exists>err. co = Raised err")
      case True
      then show ?thesis
        using before r c by (auto simp: w nth_append)
    next
      case False
      have "length (A[k := (fst (A ! k), co)]) = m"
        using m by simp
      from ih [OF c this, of B db']
      obtain c' where "c' = Created \<or> c' = Returned 0"
        and "follow env s (A[k := (fst (A ! k), co)] @ (u, c) # B) db' =
             (case follow env (without_task m s) (A[k := (fst (A ! k), co)] @ B) db' of
                (Inl err, db') \<Rightarrow> (Inl err, db')
              | (Inr T, db') \<Rightarrow> (Inr (take m T @ (u, c') # drop m T), db'))"
        by blast
      then show ?thesis
        using before r False
        by (intro exI [of _ c']) (auto simp: w nth_append list_update_append split: coroutine.splits)
    qed
  next
    case self
    have w: "without_task m (length A # s) = without_task m s"
      using m by (simp add: without_task_def)
    from ih [of "Returned 0", OF _ m, of B db]
    obtain c' where "c' = Created \<or> c' = Returned 0"
      and "follow env s (A @ (u, Returned 0) # B) db =
             (case follow env (without_task m s) (A @ B) db of
                (Inl err, db') \<Rightarrow> (Inl err, db')
              | (Inr T, db') \<Rightarrow> (Inr (take m T @ (u, c') # drop m T), db'))"
      by blast
    then show ?thesis
      using self resume_failed [OF assms(1) c, of db]
      by (intro exI [of _ c']) (simp add: w nth_append)
  next
    case after
    have w: "without_task m (k # s) = (k - 1) # without_task m s"
      using after m by (simp add: without_task_def)
    show ?thesis
    proof (cases "k < Suc (length A + length B)")
      case False
      from ih [OF c m, of B db]
      obtain c' where "c' = Created \<or> c' = Returned 0"
        and "follow env s (A @ (u, c) # B) db =
             (case follow env (without_task m s) (A @ B) db of
                (Inl err, db') \<Rightarrow> (Inl err, db')
              | (Inr T, db') \<Rightarrow> (Inr (take m T @ (u, c') # drop m T), db'))"
        by blast
      moreover have "\<not> k - 1 < length (A @ B)" and "\<not> k < length (A @ (u, c) # B)"
        using after False by simp_all
      ultimately show ?thesis
        unfolding w follow.simps by (intro exI [of _ c']) (simp only: if_False simp_thms)
    next
      case True
      define j where "j = k - Suc (length A)"
      have k: "k = Suc (length A + j)" and j: "j < length B"
        using after True by (simp_all add: j_def)
      have w2: "without_task m (Suc (length A + j) # s) = (length A + j) # without_task m s"
        using m by (simp add: without_task_def)
      obtain co db' where r: "resume env (fst (B ! j)) db (snd (B ! j)) = (co, db')"
        by (cases "resume env (fst (B ! j)) db (snd (B ! j))")
      show ?thesis
      proof (cases "\<exists>err. co = Raised err")
        case True
        then show ?thesis
          using r c j by (auto simp: w2 k nth_append)
      next
        case False
        from ih [OF c m, of "B[j := (fst (B ! j), co)]" db']
        obtain c' where "c' = Created \<or> c' = Returned 0"
          and "follow env s (A @ (u, c) # B[j := (fst (B ! j), co)]) db' =
             (case follow env (without_task m s) (A @ B[j := (fst (B ! j), co)]) db' of
                (Inl err, db') \<Rightarrow> (Inl err, db')
              | (Inr T, db') \<Rightarrow> (Inr (take m T @ (u, c') # drop m T), db'))"
          by blast
        then show ?thesis
          using r False j
          by (intro exI [of _ c']) (auto simp: w2 k nth_append list_update_append split: coroutine.splits)
      qed
    qed
  qed
qed

lemma run_rest_failed:
  assumes "feedparser_parse env u = Inr []" and "c = Created \<or> c = Returned 0"
  shows "run_rest env (A @ (u, c) # B) db =
           (case run_rest env (A @ B) db of
              (Inl err, db') \<Rightarrow> (Inl err, db')
            | (Inr ks, db') \<Rightarrow> (Inr (take (length A) ks @ 0 # drop (length A) ks), db'))"
proof (cases "run_rest env A db")
  case (Pair r d)
  show ?thesis
  proof (cases r)
    case (Inl err)
    with Pair show ?thesis
      by (simp add: run_rest_append)
  next
    case (Inr ks)
    with Pair have "length ks = length A"
      by (simp add: run_rest_length)
    with Pair Inr show ?thesis
      by (simp add: run_rest_append run_to_end_failed [OF assms] split: prod.splits sum.splits)
  qed
qed

lemma gather_fetch_feed_failed:
  assumes "feedparser_parse env u = Inr []"
  shows "gather_fetch_feed env db (xs @ u # ys) =
           (case gather_fetch_feed (env\<lparr>schedule := without_task (length xs) (schedule env)\<rparr>) db (xs @ ys) of
              (Inl err, db') \<Rightarrow> (Inl err, db')
            | (Inr ks, db') \<Rightarrow> (Inr (take (length xs) ks @ 0 # drop (length xs) ks), db'))"
proof -
  let ?A = "map (\<lambda>url. (url, Created)) xs" and ?B = "map (\<lambda>url. (url, Created)) ys"
  let ?s = "without_task (length xs) (schedule env)"
  have len: "length ?A = length xs"
    by simp
  from follow_without_task [OF assms _ len, of Created "schedule env" ?B db]
  obtain c' where c': "c' = Created \<or> c' = Returned 0"
    and f: "follow env (schedule env) (?A @ (u, Created) # ?B) db =
             (case follow env ?s (?A @ ?B) db of
                (Inl err, db') \<Rightarrow> (Inl err, db')
              | (Inr T, db') \<Rightarrow> (Inr (take (length xs) T @ (u, c') # drop (length xs) T), db'))"
    by blast
  show ?thesis
  proof (cases "follow env ?s (?A @ ?B) db")
    case (Pair r d)
    show ?thesis
    proof (cases r)
      case (Inl err)
      with Pair f show ?thesis
        by (simp add: gather_fetch_feed_def follow_schedule)
    next
      case (Inr T)
      with Pair have "length T = length (?A @ ?B)"
        by (simp only: follow_length)
      then have lt: "length (take (length xs) T) = length xs"
        by simp
      have "run_rest env (take (length xs) T @ (u, c') # drop (length xs) T) d =
              (case run_rest env (take (length xs) T @ drop (length xs) T) d of
                 (Inl err, db') \<Rightarrow> (Inl err, db')
               | (Inr ks, db') \<Rightarrow> (Inr (take (length xs) ks @ 0 # drop (length xs) ks), db'))"
        using run_rest_failed [OF assms c', of "take (length xs) T" "drop (length xs) T" d]
        unfolding lt .
      with Pair Inr f show ?thesis
        by (simp add: gather_fetch_feed_def follow_schedule run_rest_schedule)
    qed
  qed
qed

subsection \<open>A source that cannot return\<close>

lemma fails_ahead_next_entry:
  "fails_ahead env u (next_entry i bs es) \<longleftrightarrow>
     (\<exists>j \<in> {i..<i + length es}. select_fails (ambient_of env u j))"
proof (cases es)
  case Nil
  then show ?thesis
    by (simp add: next_entry_def fails_ahead_def)
next
  case (Cons e es')
  have "{i..<Suc (i + length es')} = insert i {Suc i..<Suc (i + length es')}"
    by auto
  with Cons show ?thesis
    by (simp add: next_entry_def fails_ahead_def)
qed

lemma fails_ahead_resume:
  assumes "fails_ahead env u co"
  shows "fails_ahead env u (fst (resume env u db co))"
proof (cases co)
  case Created
  show ?thesis
  proof (cases "feedparser_parse env u")
    case (Inl err)
    with Created show ?thesis
      by (simp add: resume_def fails_ahead_def)
  next
    case (Inr parsed)
    with assms Created have "\<exists>j \<in> {0..<0 + length parsed}. select_fails (ambient_of env u j)"
      by (simp add: fails_ahead_def)
    then have "fails_ahead env u (next_entry 0 [] parsed)"
      unfolding fails_ahead_next_entry .
    with Created Inr show ?thesis
      by (simp add: resume_def)
  qed
next
  case (Suspended a i bs e es)
  have later: "fails_ahead env u (next_entry (Suc i) bs' es)"
    if "\<exists>j \<in> {Suc i..<Suc (i + length es)}. select_fails (ambient_of env u j)" for bs'
    using that by (simp add: fails_ahead_next_entry)
  show ?thesis
  proof (cases a)
    case SELECT
    with assms Suspended show ?thesis
      by (auto simp: resume_def fails_ahead_def Let_def)
  next
    case (FETCHONE found)
    with assms Suspended later show ?thesis
      by (auto simp: resume_def Let_def fails_ahead_def [of env u "Suspended _ _ _ _ _"])
  next
    case (INSERT r)
    with assms Suspended show ?thesis
      by (auto simp: resume_def fails_ahead_def Let_def split: sum.splits)
  next
    case COMMIT
    with assms Suspended later show ?thesis
      by (auto simp: resume_def Let_def fails_ahead_def [of env u "Suspended _ _ _ _ _"]
          fails_ahead_def [of env u "Raised _"])
  qed
next
  case (Returned k)
  with assms show ?thesis
    by (simp add: fails_ahead_def)
next
  case (Raised err)
  then show ?thesis
    by (simp add: resume_def fails_ahead_def)
qed

lemma fails_ahead_run_to_end:
  "fails_ahead env u co \<Longrightarrow> \<exists>err. fst (run_to_end env u db co) = Inl err"
proof (induction env u db co rule: run_to_end.induct)
  case (1 env feed_url db k)
  then show ?case by (simp add: fails_ahead_def)
next
  case (2 env feed_url db err)
  then show ?case by simp
next
  case (3 env feed_url db)
  obtain co d where r: "resume env feed_url db Created = (co, d)"
    by (cases "resume env feed_url db Created")
  from fails_ahead_resume [OF "3.prems", of db] r have "fails_ahead env feed_url co"
    by simp
  from "3.IH" [OF r [symmetric] this] r show ?case
    by (simp add: run_to_end.simps(3))
next
  case (4 env feed_url db a i bs entry es)
  obtain co d where r: "resume env feed_url db (Suspended a i bs entry es) = (co, d)"
    by (cases "resume env feed_url db (Suspended a i bs entry es)")
  from fails_ahead_resume [OF "4.prems", of db] r have "fails_ahead env feed_url co"
    by simp
  from "4.IH" [OF r [symmetric] this] r show ?case
    by (simp add: run_to_end.simps(4))
qed

lemma fails_ahead_run_rest:
  assumes "k < length tasks" and "fails_ahead env (fst (tasks ! k)) (snd (tasks ! k))"
  shows "\<exists>err. fst (run_rest env tasks db) = Inl err"
  using assms
proof (induction tasks arbitrary: k db)
  case Nil
  then show ?case by simp
next
  case (Cons x tasks)
  obtain u co where x: "x = (u, co)" by (cases x)
  show ?case
  proof (cases k)
    case 0
    with Cons.prems x have "fails_ahead env u co" by simp
    from fails_ahead_run_to_end [OF this, of db] show ?thesis
      by (auto simp: x split: prod.splits sum.splits)
  next
    case (Suc k')
    with Cons.prems have "k' < length tasks" and "fails_ahead env (fst (tasks ! k')) (snd (tasks ! k'))"
      by simp_all
    note ih = Cons.IH [OF this]
    show ?thesis
    proof (cases "run_to_end env u db co")
      case (Pair r d)
      show ?thesis
      proof (cases r)
        case (Inl err)
        with Pair show ?thesis
          by (simp add: x)
      next
        case (Inr n)
        from ih [of d] obtain err where "fst (run_rest env tasks d) = Inl err"
          by blast
        with Pair Inr show ?thesis
          by (cases "run_rest env tasks d") (simp add: x)
      qed
    qed
  qed
qed

lemma fails_ahead_follow:
  assumes "k < length tasks" and "fails_ahead env (fst (tasks ! k)) (snd (tasks ! k))"
  shows "(\<exists>err. fst (follow env s tasks db) = Inl err) \<or>
         (\<exists>T db'. follow env s tasks db = (Inr T, db') \<and> k < length T \<and>
                   fails_ahead env (fst (T ! k)) (snd (T ! k)))"
  using assms
proof (induction s arbitrary: tasks db)
  case Nil
  then show ?case by simp
next
  case (Cons j s)
  show ?case
  proof (cases "j < length tasks")
    case False
    with Cons.IH [OF Cons.prems, of db] show ?thesis by simp
  next
    case True
    obtain co d where r: "resume env (fst (tasks ! j)) db (snd (tasks ! j)) = (co, d)"
      by (cases "resume env (fst (tasks ! j)) db (snd (tasks ! j))")
    show ?thesis
    proof (cases "\<exists>err. co = Raised err")
      case True
      with \<open>j < length tasks\<close> r show ?thesis by auto
    next
      case False
      let ?tasks = "tasks[j := (fst (tasks ! j), co)]"
      have "fails_ahead env (fst (?tasks ! k)) (snd (?tasks ! k))"
      proof (cases "j = k")
        case True
        with Cons.prems r fails_ahead_resume [of env "fst (tasks ! k)" "snd (tasks ! k)" db]
        show ?thesis by simp
      next
        case False
        with Cons.prems show ?thesis by simp
      qed
      moreover have "k < length ?tasks"
        using Cons.prems by simp
      ultimately have "(\<exists>err. fst (follow env s ?tasks d) = Inl err) \<or>
         (\<exists>T db'. follow env s ?tasks d = (Inr T, db') \<and> k < length T \<and>
                   fails_ahead env (fst (T ! k)) (snd (T ! k)))"
        by (rule Cons.IH [rotated])
      moreover have "follow env (j # s) tasks db = follow env s ?tasks d"
        using \<open>j < length tasks\<close> r False by (cases co) simp_all
      ultimately show ?thesis by simp
    qed
  qed
qed

lemma fails_ahead_gather_fetch_feed:
  assumes "u \<in> set urls" and "fails_ahead env u Created"
  shows "\<exists>err. fst (gather_fetch_feed env db urls) = Inl err"
proof -
  let ?tasks = "map (\<lambda>url. (url, Created)) urls"
  from assms(1) obtain k where k: "k < length urls" and u: "urls ! k = u"
    by (auto simp: in_set_conv_nth)
  then have "k < length ?tasks" and "fails_ahead env (fst (?tasks ! k)) (snd (?tasks ! k))"
    using assms(2) by simp_all
  from fails_ahead_follow [OF this, of "schedule env" db] show ?thesis
  proof
    assume "\<exists>err. fst (follow env (schedule env) ?tasks db) = Inl err"
    then show ?thesis
      by (auto simp: gather_fetch_feed_def split: prod.splits sum.splits)
  next
    assume "\<exists>T db'. follow env (schedule env) ?tasks db = (Inr T, db') \<and> k < length T \<and>
                   fails_ahead env (fst (T ! k)) (snd (T ! k))"
    then obtain T db' where f: "follow env (schedule env) ?tasks db = (Inr T, db')"
      and "k < length T" and "fails_ahead env (fst (T ! k)) (snd (T ! k))"
      by blast
    from fails_ahead_run_rest [OF this(2,3), of db'] f show ?thesis
      by (simp add: gather_fetch_feed_def)
  qed
qed

subsection \<open>Errors and failed fetches\<close>

lemma store_entry_quiet:
  "store_entry (quiet clock) db url (item l (Some ts) u) =
     (if article_id l \<in> set (map row_id db) then (Inr False, db)
      else if micros (datetime_utc ts) < clock - 86400000000 then (Inr False, db)
      else (Inr True,
            db @ [\<lparr>row_id = article_id l, row_title = Some [], row_link = l,
                    row_published = isoformat CHR ''T'' (datetime_utc ts),
                    row_summary = Some [], row_feed = url\<rparr>]))"
proof -
  have "select_by_id db (article_id l) \<noteq> None \<longleftrightarrow> article_id l \<in> set (map row_id db)"
    by (simp add: select_by_id_None)
  then show ?thesis
    by (simp add: store_entry_def Let_def quiet_def item_def parse_datetime_def
        dt_lt_def dt_sub_def datetime_now_utc_def timedelta_hours_def MAX_AGE_HOURS_def
        insert_row_def entry_get_def)
qed

lemma resume_quiet:
  assumes "ambient_of env url i = quiet clock"
  shows "resume env url db (Suspended a i bs (item l (Some ts) upd) es) =
     (case a of
        SELECT \<Rightarrow> (Suspended (FETCHONE (article_id l \<in> set (map row_id db))) i bs
                      (item l (Some ts) upd) es, db)
      | FETCHONE found \<Rightarrow>
          if found \<or> micros (datetime_utc ts) < clock - 86400000000
          then (next_entry (Suc i) (bs @ [False]) es, db)
          else (Suspended
                  (INSERT \<lparr>row_id = article_id l, row_title = Some [], row_link = l,
                           row_published = isoformat CHR ''T'' (datetime_utc ts),
                           row_summary = Some [], row_feed = url\<rparr>) i bs
                  (item l (Some ts) upd) es, db)
      | INSERT r \<Rightarrow>
          if row_id r \<in> set (map row_id db) then (Raised IntegrityError, db)
          else (Suspended COMMIT i bs (item l (Some ts) upd) es, db @ [r])
      | COMMIT \<Rightarrow> (next_entry (Suc i) (bs @ [True]) es, db))"
proof -
  have "select_by_id db (article_id l) \<noteq> None \<longleftrightarrow> article_id l \<in> set (map row_id db)"
    by (simp add: select_by_id_None)
  then show ?thesis
    by (cases a)
       (simp_all add: resume_def assms Let_def quiet_def item_def parse_datetime_def
          dt_lt_def dt_sub_def datetime_now_utc_def timedelta_hours_def MAX_AGE_HOURS_def
          insert_row_def entry_get_def)
qed

lemma article_id_a:
  "article_id ''https://x/a'' = ''13a94853b4559cff9061a7936b84135453e9405c0ec8c420f41f1478bc988acd''"
  by code_simp

lemma article_id_b:
  "article_id ''https://x/b'' = ''39bc0a943e6fc0c4eae883d6d0628c88d2bd0d5ee49cc92798694dee5206ed77''"
  by code_simp

lemma article_id_a_b: "article_id ''https://x/a'' \<noteq> article_id ''https://x/b''"
  by (simp add: article_id_a article_id_b)

text \<open>
  C5 (storage errors), amended. When persisting one item fails with a storage error,
  nothing catches the error: \<^verbatim>\<open>fetch_feed\<close> raises it at that item, so that the
  remaining items of the source are not processed; \<^verbatim>\<open>asyncio.gather\<close> passes it on;
  and \<^verbatim>\<open>poll_loop\<close> ends with it in that cycle, whatever the number of cycles that
  went well before. When the coroutines of a cycle run one after the other, a source
  whose \<^verbatim>\<open>fetch_feed\<close> raises after the sources before it have returned ends
  \<^verbatim>\<open>asyncio.gather\<close> with its error. And in whatever order the event loop resumes
  the coroutines: a coroutine resumed at a failing \<^verbatim>\<open>INSERT\<close> or \<^verbatim>\<open>commit\<close> raises,
  the first resumption that raises ends \<^verbatim>\<open>asyncio.gather\<close> with its exception, and
  a source one of whose \<^verbatim>\<open>SELECT\<close>s fails makes every schedule end with an exception.
\<close>

theorem storage_error_propagates:
  "(feedparser_parse env url = Inr (es1 @ e # es2) \<and>
    store_entries (ambient_of env url) 0 db url es1 = (Inr bs, db1) \<and>
    store_entry (ambient_of env url (length es1)) db1 url e = (Inl err, db2)
      \<longrightarrow> fetch_feed env db url = (Inl err, db2)) \<and>
   (schedule env = [] \<and> gather_fetch_feed env db urls1 = (Inr ks, db1) \<and>
    fst (fetch_feed env db1 url) = Inl err
      \<longrightarrow> fst (gather_fetch_feed env db (urls1 @ url # urls2)) = Inl err) \<and>
   (insert_fails (ambient_of env url i)
      \<longrightarrow> resume env url db (Suspended (INSERT r) i bs e es2) = (Raised OperationalError, db)) \<and>
   (commit_fails (ambient_of env url i)
      \<longrightarrow> resume env url db (Suspended COMMIT i bs e es2) = (Raised OperationalError, db)) \<and>
   (schedule env = pre @ j # rest \<and>
    follow env pre (map (\<lambda>url. (url, Created)) urls) db = (Inr tasks, db1) \<and>
    j < length tasks \<and>
    resume env (fst (tasks ! j)) db1 (snd (tasks ! j)) = (Raised err, db2)
      \<longrightarrow> gather_fetch_feed env db urls = (Inl err, db2)) \<and>
   (url \<in> set urls \<and> feedparser_parse env url = Inr es \<and> i < length es \<and>
    select_fails (ambient_of env url i)
      \<longrightarrow> (\<exists>err'. fst (gather_fetch_feed env db urls) = Inl err')) \<and>
   (poll_cycles envs feeds c k db = (Inr logged, db1) \<and>
    fst (gather_fetch_feed (envs (c + k)) db1 feeds) = Inl err
      \<longrightarrow> fst (poll_cycles envs feeds c (k + Suc n) db) = Inl err)"
proof (intro conjI impI)
  assume "feedparser_parse env url = Inr (es1 @ e # es2) \<and>
    store_entries (ambient_of env url) 0 db url es1 = (Inr bs, db1) \<and>
    store_entry (ambient_of env url (length es1)) db1 url e = (Inl err, db2)"
  then show "fetch_feed env db url = (Inl err, db2)"
    by (simp add: fetch_feed_def store_entries_append)
next
  assume a: "schedule env = [] \<and> gather_fetch_feed env db urls1 = (Inr ks, db1) \<and>
    fst (fetch_feed env db1 url) = Inl err"
  then have "schedule env = []" by simp
  from a show "fst (gather_fetch_feed env db (urls1 @ url # urls2)) = Inl err"
    by (cases "fetch_feed env db1 url")
       (simp add: gather_fetch_feed_in_turn_append [OF \<open>schedule env = []\<close>]
          gather_fetch_feed_in_turn [OF \<open>schedule env = []\<close>])
next
  assume "insert_fails (ambient_of env url i)"
  then show "resume env url db (Suspended (INSERT r) i bs e es2) = (Raised OperationalError, db)"
    by (simp add: resume_def)
next
  assume "commit_fails (ambient_of env url i)"
  then show "resume env url db (Suspended COMMIT i bs e es2) = (Raised OperationalError, db)"
    by (simp add: resume_def)
next
  assume "schedule env = pre @ j # rest \<and>
    follow env pre (map (\<lambda>url. (url, Created)) urls) db = (Inr tasks, db1) \<and>
    j < length tasks \<and>
    resume env (fst (tasks ! j)) db1 (snd (tasks ! j)) = (Raised err, db2)"
  then show "gather_fetch_feed env db urls = (Inl err, db2)"
    by (simp add: gather_fetch_feed_def follow_append)
next
  assume a: "url \<in> set urls \<and> feedparser_parse env url = Inr es \<and> i < length es \<and>
    select_fails (ambient_of env url i)"
  then have "fails_ahead env url Created"
    by (auto simp: fails_ahead_def)
  moreover from a have "url \<in> set urls"
    by simp
  ultimately show "\<exists>err'. fst (gather_fetch_feed env db urls) = Inl err'"
    by (rule fails_ahead_gather_fetch_feed [rotated])
next
  assume "poll_cycles envs feeds c k db = (Inr logged, db1) \<and>
    fst (gather_fetch_feed (envs (c + k)) db1 feeds) = Inl err"
  then show "fst (poll_cycles envs feeds c (k + Suc n) db) = Inl err"
    by (subst poll_cycles_add) (cases "gather_fetch_feed (envs (c + k)) db1 feeds", simp)
qed

text \<open>
  A feed of two fresh items, the \<^verbatim>\<open>INSERT\<close> of the first failing: alone, with a second
  feed after it, with the two coroutines resumed in turn, and over three cycles; and the
  same feed when it is the \<^verbatim>\<open>commit\<close> of the first item, or the \<^verbatim>\<open>SELECT\<close> of the second,
  that fails.
\<close>

theorem storage_error_propagates_witness:
  "fetch_feed failing_env [] ''feed'' = (Inl OperationalError, []) \<and>
   fst (gather_fetch_feed failing_env [] ([] @ ''feed'' # [''other feed''])) = Inl OperationalError \<and>
   resume failing_env ''feed'' []
     (Suspended (INSERT \<lparr>row_id = ''id'', row_title = Some [], row_link = ''https://x/a'',
                          row_published = ''2025-01-01T12:00:00+00:00'', row_summary = Some [],
                          row_feed = ''feed''\<rparr>)
        0 [] (item ''https://x/a'' (Some (jan 1 12)) None)
        [item ''https://x/b'' (Some (jan 1 12)) None])
     = (Raised OperationalError, []) \<and>
   resume (failing_env\<lparr>ambient_of := \<lambda>url i. (quiet 0)\<lparr>commit_fails := True\<rparr>\<rparr>) ''feed'' []
     (Suspended COMMIT 0 [] (item ''https://x/a'' (Some (jan 1 12)) None)
        [item ''https://x/b'' (Some (jan 1 12)) None])
     = (Raised OperationalError, []) \<and>
   gather_fetch_feed (failing_env\<lparr>schedule := [0, 1, 0, 1, 0, 1, 0, 1]\<rparr>) []
     [''feed'', ''other feed''] = (Inl OperationalError, []) \<and>
   (\<exists>err'. fst (gather_fetch_feed
                  (failing_env\<lparr>ambient_of := \<lambda>url i. (quiet 0)\<lparr>select_fails := (i = 1)\<rparr>\<rparr>) []
                  [''other feed'', ''feed'']) = Inl err') \<and>
   fst (poll_cycles (\<lambda>c. failing_env) [''feed''] 0 (0 + Suc 2) []) = Inl OperationalError"
proof -
  let ?a = "item ''https://x/a'' (Some (jan 1 12)) None"
  let ?b = "item ''https://x/b'' (Some (jan 1 12)) None"
  have first: "store_entry (ambient_of failing_env ''feed'' (length ([] :: entry list))) [] ''feed'' ?a
                 = (Inl OperationalError, [])"
    by (simp add: failing_env_def store_entry_def Let_def quiet_def item_def select_by_id_def
        parse_datetime_def dt_lt_def dt_sub_def datetime_now_utc_def timedelta_hours_def
        MAX_AGE_HOURS_def micros_jan)
  have parsed: "feedparser_parse failing_env ''feed'' = Inr ([] @ ?a # [?b])"
    by (simp add: failing_env_def)
  have none: "store_entries (ambient_of failing_env ''feed'') 0 [] ''feed'' [] = (Inr [], [])"
    by simp
  have 1: "fetch_feed failing_env [] ''feed'' = (Inl OperationalError, [])"
    by (rule mp [OF storage_error_propagates [where ?es1.0 = "[]" and bs = "[]" and ?db1.0 = "[]"
            and e = ?a and ?es2.0 = "[?b]", THEN conjunct1]])
       (intro conjI parsed none first)
  have s0: "schedule failing_env = []"
    by (simp add: failing_env_def)
  have g0: "gather_fetch_feed failing_env [] [] = (Inr [], [])"
    by (simp add: gather_fetch_feed_def failing_env_def)
  have f: "fst (fetch_feed failing_env [] ''feed'') = Inl OperationalError"
    by (simp add: 1)
  have 2: "fst (gather_fetch_feed failing_env [] ([] @ ''feed'' # [''other feed''])) = Inl OperationalError"
    by (rule mp [OF storage_error_propagates [where ks = "[]" and ?db1.0 = "[]",
            THEN conjunct2, THEN conjunct1]])
       (intro conjI s0 g0 f)
  have i0: "insert_fails (ambient_of failing_env ''feed'' 0)"
    by (simp add: failing_env_def)
  note 3 = mp [OF storage_error_propagates [where env = failing_env and url = "''feed''" and i = 0,
        THEN conjunct2, THEN conjunct2, THEN conjunct1] i0]
  have c0: "commit_fails (ambient_of (failing_env\<lparr>ambient_of := \<lambda>url i. (quiet 0)\<lparr>commit_fails := True\<rparr>\<rparr>)
              ''feed'' 0)"
    by simp
  note 4 = mp [OF storage_error_propagates [where url = "''feed''" and i = 0,
        THEN conjunct2, THEN conjunct2, THEN conjunct2, THEN conjunct1] c0]
  let ?env = "failing_env\<lparr>schedule := [0, 1, 0, 1, 0, 1, 0, 1]\<rparr>"
  let ?r = "\<lambda>url. \<lparr>row_id = article_id ''https://x/a'', row_title = Some [], row_link = ''https://x/a'',
                      row_published = isoformat CHR ''T'' (datetime_utc (jan 1 12)),
                      row_summary = Some [], row_feed = url\<rparr>"
  let ?tasks = "[(''feed'', Suspended (INSERT (?r ''feed'')) 0 [] ?a [?b]),
                 (''other feed'', Suspended (INSERT (?r ''other feed'')) 0 [] ?a [?b])]"
  have sched: "schedule ?env = [0, 1, 0, 1, 0, 1] @ 0 # [1]"
    by simp
  have pre: "follow ?env [0, 1, 0, 1, 0, 1]
               (map (\<lambda>url. (url, Created)) [''feed'', ''other feed'']) [] = (Inr ?tasks, [])"
    by (simp add: resume_def next_entry_def failing_env_def Let_def quiet_def item_def
        select_by_id_def parse_datetime_def dt_lt_def dt_sub_def datetime_now_utc_def
        timedelta_hours_def MAX_AGE_HOURS_def micros_jan entry_get_def)
  have raise: "resume ?env (fst (?tasks ! 0)) [] (snd (?tasks ! 0)) = (Raised OperationalError, [])"
    by (simp add: resume_def failing_env_def)
  have 5: "gather_fetch_feed ?env [] [''feed'', ''other feed''] = (Inl OperationalError, [])"
    by (rule mp [OF storage_error_propagates [where env = ?env and pre = "[0, 1, 0, 1, 0, 1]"
            and j = 0 and rest = "[1]" and tasks = ?tasks and ?db1.0 = "[]",
            THEN conjunct2, THEN conjunct2, THEN conjunct2, THEN conjunct2, THEN conjunct1]])
       (intro conjI sched pre raise, simp)
  let ?env' = "failing_env\<lparr>ambient_of := \<lambda>url i. (quiet 0)\<lparr>select_fails := (i = 1)\<rparr>\<rparr>"
  have 6: "\<exists>err'. fst (gather_fetch_feed ?env' [] [''other feed'', ''feed'']) = Inl err'"
    by (rule mp [OF storage_error_propagates [where env = ?env' and url = "''feed''" and i = 1
            and es = "[?a, ?b]",
            THEN conjunct2, THEN conjunct2, THEN conjunct2, THEN conjunct2, THEN conjunct2,
            THEN conjunct1]])
       (simp add: failing_env_def)
  have p0: "poll_cycles (\<lambda>c. failing_env) [''feed''] 0 0 [] = (Inr [], [])"
    by simp
  have "gather_fetch_feed failing_env [] [''feed''] = (Inl OperationalError, [])"
    by (simp add: gather_fetch_feed_in_turn [OF s0] 1)
  then have g: "fst (gather_fetch_feed ((\<lambda>c. failing_env) (0 + 0)) [] [''feed'']) = Inl OperationalError"
    by simp
  have 7: "fst (poll_cycles (\<lambda>c. failing_env) [''feed''] 0 (0 + Suc 2) []) = Inl OperationalError"
    by (rule mp [OF storage_error_propagates [where logged = "[]" and ?db1.0 = "[]",
            THEN conjunct2, THEN conjunct2, THEN conjunct2, THEN conjunct2, THEN conjunct2,
            THEN conjunct2]])
       (intro conjI p0 g)
  from 1 2 3 4 5 6 7 show ?thesis
    by blast
qed

text \<open>
  The claim as it was stated fails there: the second item, which would have been stored
  (its own surroundings have no fault), is never processed, and the loop ends with the
  error in its first cycle.
\<close>

theorem storage_error_counterexample:
  "fetch_feed failing_env [] ''feed'' = (Inl OperationalError, []) \<and>
   fst (store_entry (ambient_of failing_env ''feed'' 1) [] ''feed''
          (item ''https://x/b'' (Some (jan 1 12)) None)) = Inr True \<and>
   poll_loop (\<lambda>c. failing_env) 3 None = (Inl OperationalError, [])"
proof -
  have first: "store_entry (ambient_of failing_env url 0) [] url
                 (item ''https://x/a'' (Some (jan 1 12)) None) = (Inl OperationalError, [])" for url
    by (simp add: failing_env_def store_entry_def Let_def quiet_def item_def select_by_id_def
        parse_datetime_def dt_lt_def dt_sub_def datetime_now_utc_def timedelta_hours_def
        MAX_AGE_HOURS_def micros_jan)
  have fetch: "fetch_feed failing_env [] url = (Inl OperationalError, [])" for url
    using first [of url] by (simp add: fetch_feed_def failing_env_def)
  have second: "ambient_of failing_env ''feed'' 1 = quiet (micros (datetime_utc (jan 2 0)))"
    by (simp add: failing_env_def quiet_def)
  have s0: "schedule failing_env = []"
    by (simp add: failing_env_def)
  have loop: "poll_loop (\<lambda>c. failing_env) 3 None = (Inl OperationalError, [])"
    by (simp add: poll_loop_def init_db_def FEEDS_def numeral_3_eq_3
        gather_fetch_feed_in_turn [OF s0] fetch)
  have later: "fst (store_entry (ambient_of failing_env ''feed'' 1) [] ''feed''
                     (item ''https://x/b'' (Some (jan 1 12)) None)) = Inr True"
    unfolding second by (simp add: store_entry_quiet micros_jan)
  from fetch later loop show ?thesis
    by blast
qed

lemma gather_fetch_feed_race:
  "gather_fetch_feed race_env [] [''feed-u'', ''feed-v'']
     = (Inl IntegrityError,
        [\<lparr>row_id = article_id ''https://x/a'', row_title = Some [], row_link = ''https://x/a'',
          row_published = isoformat CHR ''T'' (datetime_utc (jan 1 12)),
          row_summary = Some [], row_feed = ''feed-u''\<rparr>])"
proof -
  have q: "ambient_of race_env url i = quiet (micros (datetime_utc (jan 2 0)))" for url i
    by (simp add: race_env_def)
  have p: "feedparser_parse race_env url = Inr [item ''https://x/a'' (Some (jan 1 12)) None]" for url
    by (simp add: race_env_def)
  have s: "schedule race_env = [0, 1, 0, 1, 0, 1, 0, 1]"
    by (simp add: race_env_def)
  have c: "resume race_env url db Created
             = (Suspended SELECT 0 [] (item ''https://x/a'' (Some (jan 1 12)) None) [], db)" for url db
    by (simp add: resume_def p next_entry_def)
  show ?thesis
    by (simp add: gather_fetch_feed_def s c resume_quiet [OF q] micros_jan)
qed

text \<open>
  C6 (fetch failures), amended. A source whose fetch fails in a cycle in the way
  feedparser reports in its result (no entries) contributes the count 0 and leaves the
  table as it is, without an exception; in whatever order the coroutines are resumed,
  the cycle gives the other sources exactly the results it gives them when the failed
  source is not in the list, and the loop goes on to the next cycle, which runs over
  the whole list again, the failed source included. A fetch error that
  \<^verbatim>\<open>feedparser.parse\<close> raises is not caught: \<^verbatim>\<open>fetch_feed\<close> raises it, the cycle ends
  with an exception in whatever order the coroutines are resumed, and so does the loop,
  which retries nothing.
\<close>

theorem fetch_failure_isolated:
  "(feedparser_parse (envs c) u = Inr [] \<longrightarrow>
      fetch_feed (envs c) db u = (Inr 0, db) \<and>
      gather_fetch_feed (envs c) db (xs @ u # ys) =
        (case gather_fetch_feed
                ((envs c)\<lparr>schedule := without_task (length xs) (schedule (envs c))\<rparr>) db (xs @ ys) of
           (Inl err, db') \<Rightarrow> (Inl err, db')
         | (Inr ks, db') \<Rightarrow> (Inr (take (length xs) ks @ 0 # drop (length xs) ks), db')) \<and>
      poll_cycles envs (xs @ u # ys) c (Suc n) db =
        (case gather_fetch_feed
                ((envs c)\<lparr>schedule := without_task (length xs) (schedule (envs c))\<rparr>) db (xs @ ys) of
           (Inl err, db') \<Rightarrow> (Inl err, db')
         | (Inr added, db') \<Rightarrow>
             (case poll_cycles envs (xs @ u # ys) (Suc c) n db' of
                (Inl err, db'') \<Rightarrow> (Inl err, db'')
              | (Inr logged, db'') \<Rightarrow> (Inr (sum_list added # logged), db'')))) \<and>
   (feedparser_parse (envs c) u = Inl err \<and> u \<in> set feeds \<longrightarrow>
      fetch_feed (envs c) db u = (Inl err, db) \<and>
      (\<exists>err'. fst (gather_fetch_feed (envs c) db feeds) = Inl err') \<and>
      (\<exists>err'. fst (poll_cycles envs feeds c (Suc n) db) = Inl err'))"
proof (intro conjI impI)
  assume failed: "feedparser_parse (envs c) u = Inr []"
  let ?rest = "gather_fetch_feed
                 ((envs c)\<lparr>schedule := without_task (length xs) (schedule (envs c))\<rparr>) db (xs @ ys)"
  show "fetch_feed (envs c) db u = (Inr 0, db)"
    using failed by (simp add: fetch_feed_def)
  show gather: "gather_fetch_feed (envs c) db (xs @ u # ys) =
        (case ?rest of
           (Inl err, db') \<Rightarrow> (Inl err, db')
         | (Inr ks, db') \<Rightarrow> (Inr (take (length xs) ks @ 0 # drop (length xs) ks), db'))"
    by (rule gather_fetch_feed_failed [OF failed])
  have sum: "sum_list (take m ks) + sum_list (drop m ks) = sum_list ks" for m and ks :: "nat list"
    by (simp add: sum_list_append [symmetric] del: sum_list_append)
  show "poll_cycles envs (xs @ u # ys) c (Suc n) db =
        (case ?rest of
           (Inl err, db') \<Rightarrow> (Inl err, db')
         | (Inr added, db') \<Rightarrow>
             (case poll_cycles envs (xs @ u # ys) (Suc c) n db' of
                (Inl err, db'') \<Rightarrow> (Inl err, db'')
              | (Inr logged, db'') \<Rightarrow> (Inr (sum_list added # logged), db'')))"
    by (simp add: gather sum split: prod.splits sum.splits)
next
  assume raised: "feedparser_parse (envs c) u = Inl err \<and> u \<in> set feeds"
  then show "fetch_feed (envs c) db u = (Inl err, db)"
    by (simp add: fetch_feed_def)
  from raised have "fails_ahead (envs c) u Created" and "u \<in> set feeds"
    by (simp_all add: fails_ahead_def)
  then show cycle: "\<exists>err'. fst (gather_fetch_feed (envs c) db feeds) = Inl err'"
    by (rule fails_ahead_gather_fetch_feed [rotated])
  then obtain err' where "fst (gather_fetch_feed (envs c) db feeds) = Inl err'"
    by blast
  then show "\<exists>err'. fst (poll_cycles envs feeds c (Suc n) db) = Inl err'"
    by (cases "gather_fetch_feed (envs c) db feeds") simp
qed

text \<open>
  Two sources and two cycles, the coroutines resumed in turn: the first source delivers
  nothing in the first cycle, in which the second source's article is stored, and
  delivers its article in the second cycle. And the cycle in which the fetch of the
  first feed raises.
\<close>

theorem fetch_failure_isolated_witness:
  "fetch_feed (retry_envs 0) [] ''feed-u'' = (Inr 0, []) \<and>
   fst (poll_cycles retry_envs [''feed-u'', ''feed-v''] 0 (Suc (Suc 0)) []) = Inr [1, 1] \<and>
   map row_link (snd (poll_cycles retry_envs [''feed-u'', ''feed-v''] 0 (Suc (Suc 0)) []))
     = [''https://x/a'', ''https://x/b''] \<and>
   map row_feed (snd (poll_cycles retry_envs [''feed-u'', ''feed-v''] 0 (Suc (Suc 0)) []))
     = [''feed-v'', ''feed-u''] \<and>
   fetch_feed outage_env [] ''http://rss.cnn.com/rss/cnn_topstories.rss'' = (Inl FetchError, []) \<and>
   (\<exists>err'. fst (gather_fetch_feed outage_env [] FEEDS) = Inl err') \<and>
   (\<exists>err'. fst (poll_cycles (\<lambda>c. outage_env) FEEDS 0 (Suc 1) []) = Inl err')"
proof -
  have failed: "feedparser_parse (retry_envs 0) ''feed-u'' = Inr []"
    by (simp add: retry_envs_def)
  note isolated = mp [OF fetch_failure_isolated [where envs = retry_envs and c = 0, THEN conjunct1]
      failed]
  have 1: "fetch_feed (retry_envs 0) [] ''feed-u'' = (Inr 0, [])"
    by (rule isolated [THEN conjunct1])
  let ?alone = "(retry_envs 0)\<lparr>schedule := without_task (length ([] :: string list))
                                               (schedule (retry_envs 0))\<rparr>"
  have loop: "poll_cycles retry_envs ([] @ ''feed-u'' # [''feed-v'']) 0 (Suc (Suc 0)) [] =
           (case gather_fetch_feed ?alone [] ([] @ [''feed-v'']) of
              (Inl err, db') \<Rightarrow> (Inl err, db')
            | (Inr added, db') \<Rightarrow>
                (case poll_cycles retry_envs ([] @ ''feed-u'' # [''feed-v'']) (Suc 0) (Suc 0) db' of
                   (Inl err, db'') \<Rightarrow> (Inl err, db'')
                 | (Inr logged, db'') \<Rightarrow> (Inr (sum_list added # logged), db'')))"
    by (rule isolated [THEN conjunct2, THEN conjunct2])
  let ?a = "\<lparr>row_id = article_id ''https://x/a'', row_title = Some [], row_link = ''https://x/a'',
              row_published = isoformat CHR ''T'' (datetime_utc (jan 1 12)),
              row_summary = Some [], row_feed = ''feed-v''\<rparr>"
  let ?b = "\<lparr>row_id = article_id ''https://x/b'', row_title = Some [], row_link = ''https://x/b'',
              row_published = isoformat CHR ''T'' (datetime_utc (jan 1 12)),
              row_summary = Some [], row_feed = ''feed-u''\<rparr>"
  have q0: "ambient_of (retry_envs 0) url i = quiet (micros (datetime_utc (jan 2 0)))" for url i
    by (simp add: retry_envs_def)
  have s0: "without_task 0 (schedule (retry_envs 0)) = [0, 0, 0]"
    by (simp add: retry_envs_def without_task_def)
  have c0: "resume (retry_envs 0) ''feed-v'' db Created
              = (Suspended SELECT 0 [] (item ''https://x/a'' (Some (jan 1 12)) None) [], db)" for db
    by (simp add: resume_def retry_envs_def next_entry_def)
  have first: "gather_fetch_feed ?alone [] ([] @ [''feed-v'']) = (Inr [1], [?a])"
    by (simp add: gather_fetch_feed_def s0 follow_schedule run_rest_schedule resume_schedule
        run_to_end_schedule c0 resume_quiet [OF q0] micros_jan run_to_end.simps(4) next_entry_def)
  have q1: "ambient_of (retry_envs (Suc 0)) url i = quiet (micros (datetime_utc (jan 2 1)))" for url i
    by (simp add: retry_envs_def)
  have s1: "schedule (retry_envs (Suc 0)) = [0, 1, 0, 1, 0, 1]"
    by (simp add: retry_envs_def)
  have cu: "resume (retry_envs (Suc 0)) ''feed-u'' db Created
              = (Suspended SELECT 0 [] (item ''https://x/b'' (Some (jan 1 12)) None) [], db)" for db
    by (simp add: resume_def retry_envs_def next_entry_def)
  have cv: "resume (retry_envs (Suc 0)) ''feed-v'' db Created
              = (Suspended SELECT 0 [] (item ''https://x/a'' (Some (jan 1 12)) None) [], db)" for db
    by (simp add: resume_def retry_envs_def next_entry_def)
  have second: "gather_fetch_feed (retry_envs (Suc 0)) [?a] [''feed-u'', ''feed-v'']
                  = (Inr [1, 0], [?a, ?b])"
    using article_id_a_b
    by (simp add: gather_fetch_feed_def s1 cu cv resume_quiet [OF q1] micros_jan
        run_to_end.simps(4) next_entry_def)
  have "poll_cycles retry_envs [''feed-u'', ''feed-v''] 0 (Suc (Suc 0)) [] =
          (case poll_cycles retry_envs [''feed-u'', ''feed-v''] (Suc 0) (Suc 0) [?a] of
             (Inl err, db'') \<Rightarrow> (Inl err, db'')
           | (Inr logged, db'') \<Rightarrow> (Inr (sum_list [1] # logged), db''))"
    using loop unfolding first by (simp only: append_Nil prod.case sum.case)
  also have "\<dots> = (Inr [1, 1], [?a, ?b])"
    by (simp add: second)
  finally have 2: "fst (poll_cycles retry_envs [''feed-u'', ''feed-v''] 0 (Suc (Suc 0)) []) = Inr [1, 1]"
    and 3: "map row_link (snd (poll_cycles retry_envs [''feed-u'', ''feed-v''] 0 (Suc (Suc 0)) []))
              = [''https://x/a'', ''https://x/b'']"
    and 4: "map row_feed (snd (poll_cycles retry_envs [''feed-u'', ''feed-v''] 0 (Suc (Suc 0)) []))
              = [''feed-v'', ''feed-u'']"
    by simp_all
  have raised: "feedparser_parse ((\<lambda>c. outage_env) 0) ''http://rss.cnn.com/rss/cnn_topstories.rss''
                  = Inl FetchError \<and>
                ''http://rss.cnn.com/rss/cnn_topstories.rss'' \<in> set FEEDS"
    by (simp add: outage_env_def FEEDS_def)
  note crash = mp [OF fetch_failure_isolated [where envs = "\<lambda>c. outage_env" and c = 0
        and db = "[]" and n = 1, THEN conjunct2] raised]
  from 1 2 3 4 crash show ?thesis
    by simp
qed

text \<open>
  The claim as it was stated fails when the fetch raises: the second feed, whose item
  would have been stored, stores nothing in that cycle, the loop ends with the fetch
  error in its first cycle, and there is no next cycle in which to retry.
\<close>

theorem fetch_failure_counterexample:
  "fetch_feed outage_env [] ''http://rss.cnn.com/rss/cnn_topstories.rss'' = (Inl FetchError, []) \<and>
   fst (fetch_feed outage_env [] ''http://rss.cnn.com/rss/cnn_world.rss'') = Inr 1 \<and>
   poll_loop (\<lambda>c. outage_env) 2 None = (Inl FetchError, [])"
proof -
  have down: "fetch_feed outage_env [] ''http://rss.cnn.com/rss/cnn_topstories.rss''
                = (Inl FetchError, [])"
    by (simp add: fetch_feed_def outage_env_def)
  have other: "fst (fetch_feed outage_env [] ''http://rss.cnn.com/rss/cnn_world.rss'') = Inr 1"
    by (simp add: fetch_feed_def outage_env_def store_entry_quiet micros_jan)
  have s0: "schedule outage_env = []"
    by (simp add: outage_env_def)
  have loop: "poll_loop (\<lambda>c. outage_env) 2 None = (Inl FetchError, [])"
    by (simp add: poll_loop_def init_db_def FEEDS_def numeral_2_eq_2
        gather_fetch_feed_in_turn [OF s0] down)
  from down other loop show ?thesis
    by blast
qed

end
